theory Spec2Isabelle
  imports Main
begin

section \<open>The hunk chunker of extract\_dataset.py and local\_extract.py\<close>

text \<open>
  The two ingestion scripts carry the same three functions, line for line:
  \<^verbatim>\<open>parse_patch_hunks\<close>, \<^verbatim>\<open>merge_close_hunks\<close> and \<^verbatim>\<open>add_editable_region_markers\<close>.
  One embedding serves both. Python integers are unbounded, so line numbers are \<open>int\<close>;
  a hunk is the tuple \<^verbatim>\<open>(old_start, end_line)\<close>.
\<close>

type_synonym hunk = "int \<times> int"

subsection \<open>merge\_close\_hunks\<close>

text \<open>
  \<^verbatim>\<open>
  def merge_close_hunks(hunks, max_gap):
      if not hunks:
          return []
      sorted_hunks = sorted(hunks, key=lambda x: x[0])
      merged = [sorted_hunks[0]]
      for current in sorted_hunks[1:]:
          last = merged[-1]
          if current[0] - last[1] <= max_gap:
              merged[-1] = (last[0], max(last[1], current[1]))
          else:
              merged.append(current)
      return merged
  \<close>
  \<^verbatim>\<open>sorted\<close> is stable, and so is \<open>sort_key\<close>. The loop is \<open>merge_loop\<close>: its first
  argument is the list \<^verbatim>\<open>merged\<close>, which is never empty when the loop runs.
\<close>

fun merge_loop :: "hunk list \<Rightarrow> int \<Rightarrow> hunk list \<Rightarrow> hunk list" where
  "merge_loop merged max_gap [] = merged"
| "merge_loop merged max_gap (current # rest) =
     (let lst = last merged in
      if fst current - snd lst \<le> max_gap
      then merge_loop (merged[length merged - 1 := (fst lst, max (snd lst) (snd current))])
             max_gap rest
      else merge_loop (merged @ [current]) max_gap rest)"

definition merge_close_hunks :: "hunk list \<Rightarrow> int \<Rightarrow> hunk list" where
  "merge_close_hunks hunks max_gap =
     (if hunks = [] then []
      else let sorted_hunks = sort_key fst hunks
           in merge_loop [hd sorted_hunks] max_gap (tl sorted_hunks))"

text \<open>
  Vocabulary of the properties: the lines a half-open range covers, the lines a sequence
  of ranges covers, and containment of one range in another by its end points.
\<close>

definition hunk_lines :: "hunk \<Rightarrow> int set" where
  "hunk_lines h = {fst h ..< snd h}"

definition coverage :: "hunk list \<Rightarrow> int set" where
  "coverage hs = (\<Union>h \<in> set hs. hunk_lines h)"

definition region_contains :: "hunk \<Rightarrow> hunk \<Rightarrow> bool" where
  "region_contains r h = (fst r \<le> fst h \<and> snd h \<le> snd r)"

text \<open>
  A proof device: the scan seen from its open region \<open>cur\<close>. It returns the regions the
  loop will still produce, the open one first.
\<close>

fun merge_run :: "hunk \<Rightarrow> int \<Rightarrow> hunk list \<Rightarrow> hunk list" where
  "merge_run cur g [] = [cur]"
| "merge_run cur g (h # hs) =
     (if fst h - snd cur \<le> g then merge_run (fst cur, max (snd cur) (snd h)) g hs
      else cur # merge_run h g hs)"

subsection \<open>Text, and the interpreter\<close>

text \<open>
  A Python \<^verbatim>\<open>str\<close> is a sequence of Unicode code points, and \<^verbatim>\<open>len\<close>, \<^verbatim>\<open>split\<close>,
  \<^verbatim>\<open>startswith\<close> and the regular expression all work on code points. So a string is the
  list of its code points, each an \<open>int\<close> as \<^verbatim>\<open>ord\<close> returns it. \<open>lit\<close> writes a literal of
  the source, whose characters are all ASCII, as such a list.
\<close>

type_synonym pystr = "int list"

definition lit :: "string \<Rightarrow> pystr" where
  "lit s = map of_char s"

text \<open>
  Two things the functions depend on are not in the repository but in the interpreter
  that runs it, and they are parameters here.

  \<^item> \<open>decimal_blocks\<close>: the pattern's \<^verbatim>\<open>\d\<close> and \<^verbatim>\<open>int()\<close> accept every character that the
    interpreter's Unicode database gives a decimal value, not only \<^verbatim>\<open>0\<close> to \<^verbatim>\<open>9\<close>. Unicode
    encodes decimal digits in blocks of ten consecutive code points, in the order of
    their values. The ASCII block, at code point 48, is in every version of the
    database, and no other ASCII character is a digit; \<open>decimal_blocks\<close> lists the first
    code point of each of the other blocks, which vary with the version. An entry
    below 128 is ignored.

  \<^item> \<open>int_max_str_digits\<close>: \<^verbatim>\<open>sys.get_int_max_str_digits()\<close>. \<^verbatim>\<open>int(s)\<close> raises
    \<^verbatim>\<open>ValueError\<close> when \<^verbatim>\<open>s\<close> has more digits than this limit, 4300 unless the interpreter
    is configured otherwise; 0 switches the check off, and an interpreter that predates
    the check behaves as with 0. CPython never applies the check to 640 digits or fewer.
\<close>

record interp =
  decimal_blocks :: "int list"
  int_max_str_digits :: int

datatype error = ValueError

text \<open>The first code point of the block of decimal digits that \<open>c\<close> belongs to, if any.\<close>

definition digit_block :: "interp \<Rightarrow> int \<Rightarrow> int option" where
  "digit_block py c =
     (if c < 128 then (if 48 \<le> c \<and> c < 58 then Some 48 else None)
      else find (\<lambda>z. 128 \<le> z \<and> z \<le> c \<and> c < z + 10) (decimal_blocks py))"

definition is_digit :: "interp \<Rightarrow> int \<Rightarrow> bool" where
  "is_digit py c = (digit_block py c \<noteq> None)"

definition digit_val :: "interp \<Rightarrow> int \<Rightarrow> int" where
  "digit_val py c = (case digit_block py c of Some z \<Rightarrow> c - z | None \<Rightarrow> 0)"

text \<open>
  \<^verbatim>\<open>int(s)\<close> for a string of decimal digits, which is all the parser passes to it
  (\<open>lax_search_digits\<close>): the value of the digits, or \<^verbatim>\<open>ValueError\<close> when there are more of
  them than the limit allows. Leading zeros count as digits.
\<close>

definition digits_value :: "interp \<Rightarrow> pystr \<Rightarrow> int" where
  "digits_value py s = foldl (\<lambda>n c. 10 * n + digit_val py c) 0 s"

definition too_long :: "interp \<Rightarrow> pystr \<Rightarrow> bool" where
  "too_long py s =
     (640 < int (length s) \<and> 0 < int_max_str_digits py
      \<and> int_max_str_digits py < int (length s))"

definition py_int :: "interp \<Rightarrow> pystr \<Rightarrow> error + int" where
  "py_int py s = (if too_long py s then Inl ValueError else Inr (digits_value py s))"

text \<open>
  The interpreter of the concrete cases: the decimal digits of Unicode 14.0, the
  database of CPython 3.11, and the default limit.
\<close>

definition cpython :: interp where
  "cpython = \<lparr>decimal_blocks = [1632, 1776, 1984, 2406, 2534, 2662, 2790, 2918, 3046, 3174,
     3302, 3430, 3558, 3664, 3792, 3872, 4160, 4240, 6112, 6160, 6470, 6608, 6784, 6800, 6992,
     7088, 7232, 7248, 42528, 43216, 43264, 43472, 43504, 43600, 44016, 65296, 66720, 68912,
     69734, 69872, 69942, 70096, 70384, 70736, 70864, 71248, 71360, 71472, 71904, 72016, 72784,
     73040, 73120, 92768, 92864, 93008, 120782, 120792, 120802, 120812, 120822, 123200, 123632,
     125264, 130032],
   int_max_str_digits = 4300\<rparr>"

subsection \<open>parse\_patch\_hunks\<close>

text \<open>
  \<^verbatim>\<open>
  def parse_patch_hunks(patch):
      if not patch:
          return []
      hunks = []
      lines = patch.split('\n')
      for line in lines:
          if line.startswith('@@'):
              match = re.search(r'@@ -(\d+),?(\d*) \+(\d+),?(\d*) @@', line)
              if match:
                  old_start = int(match.group(1))
                  old_count = int(match.group(2)) if match.group(2) else 1
                  end_line = old_start + old_count
                  hunks.append((old_start, end_line))
      return hunks
  \<close>
  A patch is a \<open>pystr option\<close>: \<open>None\<close> is Python's \<^verbatim>\<open>None\<close>, and \<^verbatim>\<open>not patch\<close> holds
  for \<open>None\<close> and for the empty string. The function returns \<open>Inr\<close> the list of hunks, or
  \<open>Inl ValueError\<close> when one of the two calls of \<^verbatim>\<open>int\<close> raises, which ends the loop.
\<close>

text \<open>
  \<^verbatim>\<open>s.split('\n')\<close>: the pieces between the newlines, one more than there are newlines.
  The result is never empty, so the first branch of the \<open>case\<close> is never taken.
\<close>

fun split_nl :: "pystr \<Rightarrow> pystr list" where
  "split_nl [] = [[]]"
| "split_nl (c # cs) =
     (if c = 10 then [] # split_nl cs
      else (case split_nl cs of [] \<Rightarrow> [[c]] | l # ls \<Rightarrow> (c # l) # ls))"

definition startswith :: "pystr \<Rightarrow> pystr \<Rightarrow> bool" where
  "startswith s p = (take (length p) s = p)"

text \<open>
  The regular expression, as a backtracking matcher: each part maps the input that is
  left to the list of its matches in the order the engine tries them, a match being what
  it captured and the input left after it. A literal has one match or none;
  \<^verbatim>\<open>\d+\<close> and \<^verbatim>\<open>\d*\<close> are greedy, so they offer the longest run of digits first and
  then each shorter one, down to \<open>m\<close> digits; \<^verbatim>\<open>,?\<close> offers the comma first and then
  nothing. A list comprehension runs the parts in sequence and keeps that order, so the
  head of the result is the match \<^verbatim>\<open>re\<close> reports.
\<close>

definition rx_lit :: "pystr \<Rightarrow> pystr \<Rightarrow> pystr list" where
  "rx_lit l s = (if startswith s l then [drop (length l) s] else [])"

definition rx_digits :: "interp \<Rightarrow> nat \<Rightarrow> pystr \<Rightarrow> (pystr \<times> pystr) list" where
  "rx_digits py m s =
     map (\<lambda>k. (take k s, drop k s)) (rev [m ..< Suc (length (takeWhile (is_digit py) s))])"

definition rx_opt_comma :: "pystr \<Rightarrow> pystr list" where
  "rx_opt_comma s = (if startswith s (lit '','') then [drop 1 s] else []) @ [s]"

text \<open>\<^verbatim>\<open>(\d+),?(\d*)\<close>: the two groups and the input left.\<close>

definition rx_range :: "interp \<Rightarrow> pystr \<Rightarrow> ((pystr \<times> pystr) \<times> pystr) list" where
  "rx_range py s =
     [((a, b), r3). (a, r1) \<leftarrow> rx_digits py 1 s, r2 \<leftarrow> rx_opt_comma r1,
                    (b, r3) \<leftarrow> rx_digits py 0 r2]"

text \<open>
  The whole pattern, matched at the start of \<open>s\<close>: groups 1 and 2 of every match, in
  the engine's order. Groups 3 and 4 are matched and not used.
\<close>

definition hunk_header_at :: "interp \<Rightarrow> pystr \<Rightarrow> (pystr \<times> pystr) list" where
  "hunk_header_at py s =
     [g. r0 \<leftarrow> rx_lit (lit ''@@ -'') s, (g, r1) \<leftarrow> rx_range py r0,
         r2 \<leftarrow> rx_lit (lit '' +'') r1, (g', r3) \<leftarrow> rx_range py r2,
         r4 \<leftarrow> rx_lit (lit '' @@'') r3]"

text \<open>\<^verbatim>\<open>re.search\<close>: the first match at the leftmost position that has one.\<close>

fun re_search :: "interp \<Rightarrow> pystr \<Rightarrow> (pystr \<times> pystr) option" where
  "re_search py s =
     (case hunk_header_at py s of
        m # _ \<Rightarrow> Some m
      | [] \<Rightarrow> (case s of [] \<Rightarrow> None | _ # t \<Rightarrow> re_search py t))"

fun parse_loop :: "interp \<Rightarrow> hunk list \<Rightarrow> pystr list \<Rightarrow> error + hunk list" where
  "parse_loop py hunks [] = Inr hunks"
| "parse_loop py hunks (line # lines) =
     (if startswith line (lit ''@@'') then
        (case re_search py line of
           Some (g1, g2) \<Rightarrow>
             (case py_int py g1 of
                Inl e \<Rightarrow> Inl e
              | Inr old_start \<Rightarrow>
                  (case (if g2 \<noteq> [] then py_int py g2 else Inr 1) of
                     Inl e \<Rightarrow> Inl e
                   | Inr old_count \<Rightarrow>
                       (let end_line = old_start + old_count
                        in parse_loop py (hunks @ [(old_start, end_line)]) lines)))
         | None \<Rightarrow> parse_loop py hunks lines)
      else parse_loop py hunks lines)"

definition parse_patch_hunks :: "interp \<Rightarrow> pystr option \<Rightarrow> error + hunk list" where
  "parse_patch_hunks py patch =
     (case patch of
        None \<Rightarrow> Inr []
      | Some p \<Rightarrow> if p = [] then Inr [] else parse_loop py [] (split_nl p))"

text \<open>
  What the matcher amounts to, without backtracking: read the longest run of digits, then
  a comma if there is one, then the longest run of digits (which may be empty).
  \<open>hunk_header_at_first\<close> proves that the first match of the pattern is this reading.
\<close>

definition lax_range :: "interp \<Rightarrow> pystr \<Rightarrow> ((pystr \<times> pystr) \<times> pystr) option" where
  "lax_range py s =
     (let a = takeWhile (is_digit py) s; r = dropWhile (is_digit py) s in
      if a = [] then None
      else if startswith r (lit '','') then
        Some ((a, takeWhile (is_digit py) (drop 1 r)), dropWhile (is_digit py) (drop 1 r))
      else Some ((a, []), r))"

definition lax_header_at :: "interp \<Rightarrow> pystr \<Rightarrow> (pystr \<times> pystr) option" where
  "lax_header_at py s =
     (if startswith s (lit ''@@ -'') then
        (case lax_range py (drop 4 s) of
           None \<Rightarrow> None
         | Some (g, r1) \<Rightarrow>
             if startswith r1 (lit '' +'') then
               (case lax_range py (drop 2 r1) of
                  None \<Rightarrow> None
                | Some (g', r3) \<Rightarrow> if startswith r3 (lit '' @@'') then Some g else None)
             else None)
      else None)"

fun lax_search :: "interp \<Rightarrow> pystr \<Rightarrow> (pystr \<times> pystr) option" where
  "lax_search py s =
     (case lax_header_at py s of
        Some m \<Rightarrow> Some m
      | None \<Rightarrow> (case s of [] \<Rightarrow> None | _ # t \<Rightarrow> lax_search py t))"

text \<open>
  The hunk of the two groups of a match, and whether turning them into numbers raises:
  group 1 is converted always, group 2 when it is not empty.
\<close>

definition header_hunk :: "interp \<Rightarrow> pystr \<times> pystr \<Rightarrow> hunk" where
  "header_hunk py g =
     (digits_value py (fst g),
      digits_value py (fst g) + (if snd g \<noteq> [] then digits_value py (snd g) else 1))"

definition header_raises :: "interp \<Rightarrow> pystr \<times> pystr \<Rightarrow> bool" where
  "header_raises py g = (too_long py (fst g) \<or> (snd g \<noteq> [] \<and> too_long py (snd g)))"

text \<open>
  What one line does. It makes the parser raise when it begins with \<^verbatim>\<open>@@\<close>, the pattern
  is found in it, and a number of the leftmost place where it is found is too long.
  Otherwise it contributes no hunk, or the one hunk of the leftmost place in the line
  where the pattern is found, and only when the line begins with \<^verbatim>\<open>@@\<close>.
\<close>

definition line_raises :: "interp \<Rightarrow> pystr \<Rightarrow> bool" where
  "line_raises py line =
     (startswith line (lit ''@@'')
      \<and> (case lax_search py line of Some g \<Rightarrow> header_raises py g | None \<Rightarrow> False))"

definition lax_line_hunks :: "interp \<Rightarrow> pystr \<Rightarrow> hunk list" where
  "lax_line_hunks py line =
     (if startswith line (lit ''@@'') then
        (case lax_search py line of Some g \<Rightarrow> [header_hunk py g] | None \<Rightarrow> [])
      else [])"

text \<open>
  The range syntax in the spec's words, \<^verbatim>\<open>@@ -oldStart[,oldCount] +newStart[,newCount] @@\<close>:
  a line that begins with \<^verbatim>\<open>@@ -\<close>, a number, optionally a comma and a number, \<^verbatim>\<open> +\<close>, a
  number, optionally a comma and a number, \<^verbatim>\<open> @@\<close>; anything may follow. The comma
  belongs to the count: a comma with no number after it is not part of a range. A number
  is a run of the digits the code accepts. \<open>spec_header_line\<close> returns \<open>oldStart\<close> and,
  when it is there, \<open>oldCount\<close>.
\<close>

definition spec_range :: "interp \<Rightarrow> pystr \<Rightarrow> ((pystr \<times> pystr option) \<times> pystr) option" where
  "spec_range py s =
     (let a = takeWhile (is_digit py) s; r = dropWhile (is_digit py) s in
      if a = [] then None
      else if startswith r (lit '','') \<and> takeWhile (is_digit py) (drop 1 r) \<noteq> [] then
        Some ((a, Some (takeWhile (is_digit py) (drop 1 r))),
              dropWhile (is_digit py) (drop 1 r))
      else Some ((a, None), r))"

definition spec_header_line :: "interp \<Rightarrow> pystr \<Rightarrow> (pystr \<times> pystr option) option" where
  "spec_header_line py line =
     (if startswith line (lit ''@@ -'') then
        (case spec_range py (drop 4 line) of
           None \<Rightarrow> None
         | Some (old, r1) \<Rightarrow>
             if startswith r1 (lit '' +'') then
               (case spec_range py (drop 2 r1) of
                  None \<Rightarrow> None
                | Some (new, r3) \<Rightarrow> if startswith r3 (lit '' @@'') then Some old else None)
             else None)
      else None)"

definition spec_hunk :: "interp \<Rightarrow> pystr \<times> pystr option \<Rightarrow> hunk" where
  "spec_hunk py old =
     (digits_value py (fst old),
      digits_value py (fst old) + (case snd old of None \<Rightarrow> 1 | Some c \<Rightarrow> digits_value py c))"

definition spec_raises :: "interp \<Rightarrow> pystr \<times> pystr option \<Rightarrow> bool" where
  "spec_raises py old =
     (too_long py (fst old) \<or> (case snd old of None \<Rightarrow> False | Some c \<Rightarrow> too_long py c))"

text \<open>Proof devices: the pattern after its first range, and after its second.\<close>

definition tail_close ::
  "pystr \<times> pystr \<Rightarrow> (pystr \<times> pystr) \<times> pystr \<Rightarrow> (pystr \<times> pystr) list" where
  "tail_close g = (\<lambda>(g', r3). concat (map (\<lambda>r4. [g]) (rx_lit (lit '' @@'') r3)))"

definition tail_new :: "interp \<Rightarrow> (pystr \<times> pystr) \<times> pystr \<Rightarrow> (pystr \<times> pystr) list" where
  "tail_new py = (\<lambda>(g, r1). concat (map (\<lambda>r2. concat (map (tail_close g) (rx_range py r2)))
                                (rx_lit (lit '' +'') r1)))"

definition ok_new :: "interp \<Rightarrow> pystr \<Rightarrow> bool" where
  "ok_new py r1 = (startswith r1 (lit '' +'')
     \<and> (\<exists>g' r3. lax_range py (drop 2 r1) = Some (g', r3) \<and> startswith r3 (lit '' @@'')))"

subsection \<open>add\_editable\_region\_markers\<close>

text \<open>
  \<^verbatim>\<open>
  def add_editable_region_markers(file_record, context_before, context_after, max_gap):
      patch = file_record.get('patch')
      before_content = file_record.get('before_content')
      after_content = file_record.get('after_content')
      if not patch or not before_content:
          file_record['chunk_id'] = 0
          file_record['total_chunks_in_file'] = 1
          file_record['is_multi_chunk_file'] = False
          file_record['model_input_text'] = None
          file_record['model_target_text'] = None
          return [file_record]
      hunks = parse_patch_hunks(patch)
      if not hunks:
          ...the same five assignments...
          return [file_record]
      merged_hunks = merge_close_hunks(hunks, max_gap)
      before_lines = before_content.split('\n')
      after_lines = after_content.split('\n') if after_content else before_lines
      chunk_records = []
      for chunk_idx, (hunk_start, hunk_end) in enumerate(merged_hunks):
          chunk_record = file_record.copy()
          region_start = max(1, hunk_start - context_before)
          region_end = min(len(before_lines), hunk_end + context_after)
          marked_lines = []
          for i, line in enumerate(before_lines, start=1):
              if i == region_start:
                  marked_lines.append('<|editable_region_start|>')
              marked_lines.append(line)
              if i == region_end:
                  marked_lines.append('<|editable_region_end|>')
          model_input_text = '\n'.join(marked_lines)
          model_target_text = None
          if region_start <= len(after_lines) and region_end <= len(after_lines):
              target_lines = after_lines[region_start-1:region_end]
              model_target_text = '\n'.join(target_lines)
          chunk_record['chunk_id'] = chunk_idx
          chunk_record['total_chunks_in_file'] = len(merged_hunks)
          chunk_record['is_multi_chunk_file'] = len(merged_hunks) > 1
          chunk_record['editable_region_start'] = region_start
          chunk_record['editable_region_end'] = region_end
          chunk_record['model_input_text'] = model_input_text
          chunk_record['model_target_text'] = model_target_text
          chunk_records.append(chunk_record)
      return chunk_records
  \<close>
  The record has the keys the function reads and writes; a key that is missing or holds
  \<^verbatim>\<open>None\<close> is \<open>None\<close>. The other keys of the dictionary (commit metadata) are carried
  along unchanged: they are the extension of the record scheme. The function returns
  \<open>Inr\<close> the list of chunks, or \<open>Inl ValueError\<close> when \<^verbatim>\<open>parse_patch_hunks\<close> raises: the
  call is not inside a \<^verbatim>\<open>try\<close>.
\<close>

record file_record =
  patch :: "pystr option"
  before_content :: "pystr option"
  after_content :: "pystr option"
  chunk_id :: "int option"
  total_chunks_in_file :: "int option"
  is_multi_chunk_file :: "bool option"
  editable_region_start :: "int option"
  editable_region_end :: "int option"
  model_input_text :: "pystr option"
  model_target_text :: "pystr option"

text \<open>Python's truth value of a string or \<^verbatim>\<open>None\<close>.\<close>

definition py_truthy :: "pystr option \<Rightarrow> bool" where
  "py_truthy s = (case s of None \<Rightarrow> False | Some t \<Rightarrow> t \<noteq> [])"

definition marker_start :: pystr where
  "marker_start = lit ''<|editable_region_start|>''"

definition marker_end :: pystr where
  "marker_end = lit ''<|editable_region_end|>''"

text \<open>\<^verbatim>\<open>'\n'.join(lines)\<close>.\<close>

fun join_nl :: "pystr list \<Rightarrow> pystr" where
  "join_nl [] = []"
| "join_nl [l] = l"
| "join_nl (l # ls) = l @ 10 # join_nl ls"

text \<open>
  The slice \<^verbatim>\<open>xs[i:j]\<close>: a negative bound counts from the end, and both bounds are
  clipped to the list.
\<close>

definition py_slice :: "'a list \<Rightarrow> int \<Rightarrow> int \<Rightarrow> 'a list" where
  "py_slice xs i j =
     (let n = int (length xs);
          lo = (if i < 0 then max 0 (i + n) else min i n);
          hi = (if j < 0 then max 0 (j + n) else min j n)
      in take (nat (hi - lo)) (drop (nat lo) xs))"

text \<open>The inner loop over \<^verbatim>\<open>enumerate(before_lines, start=1)\<close>.\<close>

fun mark_loop :: "pystr list \<Rightarrow> int \<Rightarrow> int \<Rightarrow> int \<Rightarrow> pystr list \<Rightarrow> pystr list" where
  "mark_loop marked_lines region_start region_end i [] = marked_lines"
| "mark_loop marked_lines region_start region_end i (line # rest) =
     (let m1 = (if i = region_start then marked_lines @ [marker_start] else marked_lines);
          m2 = m1 @ [line];
          m3 = (if i = region_end then m2 @ [marker_end] else m2)
      in mark_loop m3 region_start region_end (i + 1) rest)"

text \<open>The five assignments of the two early returns.\<close>

definition not_chunkable :: "'a file_record_scheme \<Rightarrow> 'a file_record_scheme" where
  "not_chunkable file_record =
     file_record\<lparr>chunk_id := Some 0, total_chunks_in_file := Some 1,
                 is_multi_chunk_file := Some False,
                 model_input_text := None, model_target_text := None\<rparr>"

text \<open>The body of the outer loop, for the region \<open>h\<close> at index \<open>chunk_idx\<close>.\<close>

definition make_chunk ::
  "'a file_record_scheme \<Rightarrow> int \<Rightarrow> int \<Rightarrow> pystr list \<Rightarrow> pystr list \<Rightarrow> nat \<Rightarrow> int \<Rightarrow> hunk
   \<Rightarrow> 'a file_record_scheme" where
  "make_chunk file_record context_before context_after before_lines after_lines n_merged
     chunk_idx h =
     (let hunk_start = fst h; hunk_end = snd h;
          region_start = max 1 (hunk_start - context_before);
          region_end = min (int (length before_lines)) (hunk_end + context_after);
          marked_lines = mark_loop [] region_start region_end 1 before_lines;
          input_text = join_nl marked_lines;
          target_text =
            (if region_start \<le> int (length after_lines) \<and> region_end \<le> int (length after_lines)
             then Some (join_nl (py_slice after_lines (region_start - 1) region_end))
             else None)
      in file_record\<lparr>chunk_id := Some chunk_idx,
                      total_chunks_in_file := Some (int n_merged),
                      is_multi_chunk_file := Some (1 < n_merged),
                      editable_region_start := Some region_start,
                      editable_region_end := Some region_end,
                      model_input_text := Some input_text,
                      model_target_text := target_text\<rparr>)"

fun chunk_loop ::
  "'a file_record_scheme list \<Rightarrow> 'a file_record_scheme \<Rightarrow> int \<Rightarrow> int \<Rightarrow> pystr list
   \<Rightarrow> pystr list \<Rightarrow> nat \<Rightarrow> int \<Rightarrow> hunk list \<Rightarrow> 'a file_record_scheme list" where
  "chunk_loop chunk_records file_record cb ca before_lines after_lines n chunk_idx [] =
     chunk_records"
| "chunk_loop chunk_records file_record cb ca before_lines after_lines n chunk_idx (h # rest) =
     chunk_loop (chunk_records @ [make_chunk file_record cb ca before_lines after_lines n chunk_idx h])
       file_record cb ca before_lines after_lines n (chunk_idx + 1) rest"

definition add_editable_region_markers ::
  "interp \<Rightarrow> 'a file_record_scheme \<Rightarrow> int \<Rightarrow> int \<Rightarrow> int
   \<Rightarrow> error + 'a file_record_scheme list" where
  "add_editable_region_markers py file_record context_before context_after max_gap =
     (if \<not> py_truthy (patch file_record) \<or> \<not> py_truthy (before_content file_record)
      then Inr [not_chunkable file_record]
      else
        (case parse_patch_hunks py (patch file_record) of
           Inl e \<Rightarrow> Inl e
         | Inr hunks \<Rightarrow>
             if hunks = [] then Inr [not_chunkable file_record]
             else
               let merged_hunks = merge_close_hunks hunks max_gap;
                   before_lines = split_nl (the (before_content file_record));
                   after_lines = (if py_truthy (after_content file_record)
                                  then split_nl (the (after_content file_record))
                                  else before_lines)
               in Inr (chunk_loop [] file_record context_before context_after before_lines
                         after_lines (length merged_hunks) 0 merged_hunks)))"

text \<open>
  Shorthand for the statements: the lines the code takes for the after-file (the
  before-lines when the after-content is absent or empty).
\<close>

abbreviation lines_after :: "'a file_record_scheme \<Rightarrow> pystr \<Rightarrow> pystr list" where
  "lines_after r b \<equiv>
     (case after_content r of None \<Rightarrow> split_nl b
      | Some a \<Rightarrow> if a = [] then split_nl b else split_nl a)"

text \<open>
  Records for the concrete cases: a file of 20 lines that shrinks to 10 with one hunk
  \<open>[10, 12)\<close>; a file deleted by the commit, as each of the two scripts records it
  (after-content \<^verbatim>\<open>None\<close>, or the empty string); a binary file, whose patch has no hunk
  header; a file with two hunks far apart; two lines inserted at the top of a
  one-line file, as a diff without context lines reports it; and a file whose patch has
  a hunk header with a start of 4301 digits.
\<close>

definition shrunk_file :: file_record where
  "shrunk_file = \<lparr>patch = Some (lit ''@@ -10,2 +10,0 @@\<newline>-j\<newline>-k''),
     before_content = Some (lit ''a\<newline>b\<newline>c\<newline>d\<newline>e\<newline>f\<newline>g\<newline>h\<newline>i\<newline>j\<newline>k\<newline>l\<newline>m\<newline>n\<newline>o\<newline>p\<newline>q\<newline>r\<newline>s\<newline>t''),
     after_content = Some (lit ''a\<newline>b\<newline>c\<newline>d\<newline>e\<newline>f\<newline>g\<newline>h\<newline>i\<newline>l''),
     chunk_id = None, total_chunks_in_file = None, is_multi_chunk_file = None,
     editable_region_start = None, editable_region_end = None,
     model_input_text = None, model_target_text = None\<rparr>"

definition removed_file :: file_record where
  "removed_file = \<lparr>patch = Some (lit ''@@ -1,3 +0,0 @@\<newline>-a\<newline>-b\<newline>-c''),
     before_content = Some (lit ''a\<newline>b\<newline>c''), after_content = None,
     chunk_id = None, total_chunks_in_file = None, is_multi_chunk_file = None,
     editable_region_start = None, editable_region_end = None,
     model_input_text = None, model_target_text = None\<rparr>"

definition emptied_file :: file_record where
  "emptied_file = \<lparr>patch = Some (lit ''@@ -1,3 +0,0 @@\<newline>-a\<newline>-b\<newline>-c''),
     before_content = Some (lit ''a\<newline>b\<newline>c''), after_content = Some [],
     chunk_id = None, total_chunks_in_file = None, is_multi_chunk_file = None,
     editable_region_start = None, editable_region_end = None,
     model_input_text = None, model_target_text = None\<rparr>"

definition binary_file :: file_record where
  "binary_file = \<lparr>patch = Some (lit ''Binary files a/x.png and b/x.png differ''),
     before_content = Some (lit ''x''), after_content = Some (lit ''y''),
     chunk_id = None, total_chunks_in_file = None, is_multi_chunk_file = None,
     editable_region_start = None, editable_region_end = None,
     model_input_text = None, model_target_text = None\<rparr>"

definition two_hunk_file :: file_record where
  "two_hunk_file = \<lparr>patch = Some (lit ''@@ -1 +1 @@\<newline>-a\<newline>+A\<newline>@@ -20 +20 @@\<newline>-t\<newline>+T''),
     before_content = Some (lit ''a\<newline>b\<newline>c\<newline>d\<newline>e\<newline>f\<newline>g\<newline>h\<newline>i\<newline>j\<newline>k\<newline>l\<newline>m\<newline>n\<newline>o\<newline>p\<newline>q\<newline>r\<newline>s\<newline>t''),
     after_content = Some (lit ''A\<newline>b\<newline>c\<newline>d\<newline>e\<newline>f\<newline>g\<newline>h\<newline>i\<newline>j\<newline>k\<newline>l\<newline>m\<newline>n\<newline>o\<newline>p\<newline>q\<newline>r\<newline>s\<newline>T''),
     chunk_id = None, total_chunks_in_file = None, is_multi_chunk_file = None,
     editable_region_start = None, editable_region_end = None,
     model_input_text = None, model_target_text = None\<rparr>"

definition top_insert_file :: file_record where
  "top_insert_file = \<lparr>patch = Some (lit ''@@ -0,0 +1,2 @@\<newline>+a\<newline>+b''),
     before_content = Some (lit ''x''), after_content = Some (lit ''a\<newline>b\<newline>x''),
     chunk_id = None, total_chunks_in_file = None, is_multi_chunk_file = None,
     editable_region_start = None, editable_region_end = None,
     model_input_text = None, model_target_text = None\<rparr>"

definition long_header_file :: file_record where
  "long_header_file = \<lparr>patch = Some (lit ''@@ -'' @ replicate 4301 49 @ lit '' +1 @@''),
     before_content = Some (lit ''x''), after_content = Some (lit ''x''),
     chunk_id = None, total_chunks_in_file = None, is_multi_chunk_file = None,
     editable_region_start = None, editable_region_end = None,
     model_input_text = None, model_target_text = None\<rparr>"

section \<open>Properties of the merger\<close>

lemma merge_loop_run: "merge_loop (pre @ [cur]) g hs = pre @ merge_run cur g hs"
proof (induction hs arbitrary: pre cur)
  case Nil
  show ?case by simp
next
  case (Cons h hs)
  show ?case
  proof (cases "fst h - snd cur \<le> g")
    case True
    have "merge_loop (pre @ [cur]) g (h # hs)
          = merge_loop (pre @ [(fst cur, max (snd cur) (snd h))]) g hs"
      using True by simp
    then show ?thesis using True Cons.IH [of pre] by simp
  next
    case False
    have "merge_loop (pre @ [cur]) g (h # hs) = merge_loop ((pre @ [cur]) @ [h]) g hs"
      using False by simp
    then show ?thesis using False Cons.IH [of "pre @ [cur]" h] by simp
  qed
qed

lemma merge_close_hunks_run:
  "hunks \<noteq> [] \<Longrightarrow>
   merge_close_hunks hunks g = merge_run (hd (sort_key fst hunks)) g (tl (sort_key fst hunks))"
  using merge_loop_run [of "[]"] by (simp add: merge_close_hunks_def Let_def)

lemma sort_key_not_Nil: "hunks \<noteq> [] \<Longrightarrow> sort_key fst hunks \<noteq> []"
  by (metis length_sort length_0_conv)

lemma sorted_hd_tl:
  "hunks \<noteq> [] \<Longrightarrow> sorted (map fst (hd (sort_key fst hunks) # tl (sort_key fst hunks)))"
  using sort_key_not_Nil [of hunks] sorted_sort_key [of fst hunks] by simp

lemma set_hd_tl:
  "hunks \<noteq> [] \<Longrightarrow> set (hd (sort_key fst hunks) # tl (sort_key fst hunks)) = set hunks"
  using sort_key_not_Nil [of hunks] set_sort [of fst hunks]
  by (metis list.collapse)

lemma merge_run_not_Nil: "merge_run cur g hs \<noteq> []"
  by (induction hs arbitrary: cur) auto

lemma merge_run_hd:
  "fst (hd (merge_run cur g hs)) = fst cur \<and> snd cur \<le> snd (hd (merge_run cur g hs))"
proof (induction hs arbitrary: cur)
  case Nil
  show ?case by simp
next
  case (Cons h hs)
  show ?case using Cons.IH [of "(fst cur, max (snd cur) (snd h))"] by auto
qed

lemma merge_run_starts:
  "r \<in> set (merge_run cur g hs) \<Longrightarrow> fst r \<in> fst ` set (cur # hs)"
proof (induction hs arbitrary: cur)
  case Nil
  then show ?case by simp
next
  case (Cons h hs)
  show ?case
  proof (cases "fst h - snd cur \<le> g")
    case True
    with Cons.prems have "r \<in> set (merge_run (fst cur, max (snd cur) (snd h)) g hs)" by simp
    from Cons.IH [OF this] show ?thesis by auto
  next
    case False
    with Cons.prems have "r = cur \<or> r \<in> set (merge_run h g hs)" by simp
    then show ?thesis using Cons.IH [of h] by auto
  qed
qed

lemma merge_run_ends:
  "r \<in> set (merge_run cur g hs) \<Longrightarrow> snd r \<in> snd ` set (cur # hs)"
proof (induction hs arbitrary: cur)
  case Nil
  then show ?case by simp
next
  case (Cons h hs)
  show ?case
  proof (cases "fst h - snd cur \<le> g")
    case True
    with Cons.prems have "r \<in> set (merge_run (fst cur, max (snd cur) (snd h)) g hs)" by simp
    from Cons.IH [OF this] show ?thesis by (auto simp: max_def split: if_splits)
  next
    case False
    with Cons.prems have "r = cur \<or> r \<in> set (merge_run h g hs)" by simp
    then show ?thesis using Cons.IH [of h] by auto
  qed
qed

text \<open>Two regions of the output are separated by more than \<open>g\<close> lines.\<close>

lemma merge_run_separated:
  "sorted (map fst (cur # hs)) \<Longrightarrow>
   sorted_wrt (\<lambda>a b. snd a + g < fst b) (merge_run cur g hs)"
proof (induction hs arbitrary: cur)
  case Nil
  show ?case by simp
next
  case (Cons h hs)
  show ?case
  proof (cases "fst h - snd cur \<le> g")
    case True
    have "sorted (map fst ((fst cur, max (snd cur) (snd h)) # hs))"
      using Cons.prems by auto
    from Cons.IH [OF this] show ?thesis using True by simp
  next
    case False
    have sh: "sorted (map fst (h # hs))" using Cons.prems by simp
    have "snd cur + g < fst r" if "r \<in> set (merge_run h g hs)" for r
    proof -
      from merge_run_starts [OF that] have "fst r \<in> fst ` set (h # hs)" .
      then have "fst h \<le> fst r" using sh by auto
      then show ?thesis using False by simp
    qed
    then show ?thesis using False Cons.IH [OF sh] by simp
  qed
qed

lemma merge_run_sorted:
  "sorted (map fst (cur # hs)) \<Longrightarrow> sorted (map fst (merge_run cur g hs))"
proof (induction hs arbitrary: cur)
  case Nil
  show ?case by simp
next
  case (Cons h hs)
  show ?case
  proof (cases "fst h - snd cur \<le> g")
    case True
    have "sorted (map fst ((fst cur, max (snd cur) (snd h)) # hs))"
      using Cons.prems by auto
    from Cons.IH [OF this] show ?thesis using True by simp
  next
    case False
    have sh: "sorted (map fst (h # hs))" using Cons.prems by simp
    have "fst cur \<le> fst r" if "r \<in> set (merge_run h g hs)" for r
    proof -
      from merge_run_starts [OF that] have "fst r \<in> fst ` set (h # hs)" .
      then show ?thesis using Cons.prems by auto
    qed
    then show ?thesis using False Cons.IH [OF sh] by auto
  qed
qed

text \<open>Every hunk of the scan lies in a region of the output.\<close>

lemma merge_run_contains:
  "sorted (map fst (cur # hs)) \<Longrightarrow> h \<in> set (cur # hs) \<Longrightarrow>
   \<exists>r \<in> set (merge_run cur g hs). region_contains r h"
proof (induction hs arbitrary: cur)
  case Nil
  then show ?case by (simp add: region_contains_def)
next
  case (Cons x hs)
  let ?c = "(fst cur, max (snd cur) (snd x))"
  have hd_in: "hd (merge_run c g hs) \<in> set (merge_run c g hs)" for c
    using merge_run_not_Nil by simp
  show ?case
  proof (cases "fst x - snd cur \<le> g")
    case True
    have s: "sorted (map fst (?c # hs))" using Cons.prems(1) by auto
    have run: "merge_run cur g (x # hs) = merge_run ?c g hs" using True by simp
    consider "h = cur" | "h = x" | "h \<in> set hs" using Cons.prems(2) by auto
    then show ?thesis
    proof cases
      case 1
      have "region_contains (hd (merge_run ?c g hs)) cur"
        using merge_run_hd [of ?c g hs] by (simp add: region_contains_def)
      then show ?thesis using 1 run hd_in [of ?c] by metis
    next
      case 2
      have "fst cur \<le> fst x" using Cons.prems(1) by simp
      then have "region_contains (hd (merge_run ?c g hs)) x"
        using merge_run_hd [of ?c g hs] by (simp add: region_contains_def)
      then show ?thesis using 2 run hd_in [of ?c] by metis
    next
      case 3
      then have "h \<in> set (?c # hs)" by simp
      from Cons.IH [OF s this] show ?thesis using run by simp
    qed
  next
    case False
    have s: "sorted (map fst (x # hs))" using Cons.prems(1) by simp
    show ?thesis
    proof (cases "h = cur")
      case True
      then show ?thesis using False by (simp add: region_contains_def)
    next
      case neq: False
      then have "h \<in> set (x # hs)" using Cons.prems(2) by auto
      from Cons.IH [OF s this] show ?thesis using False by auto
    qed
  qed
qed

lemma merge_run_fixed:
  "sorted_wrt (\<lambda>a b. snd a + g < fst b) (cur # hs) \<Longrightarrow> merge_run cur g hs = cur # hs"
proof (induction hs arbitrary: cur)
  case Nil
  show ?case by simp
next
  case (Cons h hs)
  have "\<not> fst h - snd cur \<le> g" using Cons.prems by simp
  moreover have "sorted_wrt (\<lambda>a b. snd a + g < fst b) (h # hs)" using Cons.prems by simp
  ultimately show ?case using Cons.IH [of h] by simp
qed

lemma merge_run_length_mono:
  "g1 \<le> g2 \<Longrightarrow> snd c1 \<le> snd c2 \<Longrightarrow>
   length (merge_run c2 g2 hs) \<le> length (merge_run c1 g1 hs)"
proof (induction hs arbitrary: c1 c2)
  case Nil
  show ?case by simp
next
  case (Cons h hs)
  let ?m1 = "(fst c1, max (snd c1) (snd h))" and ?m2 = "(fst c2, max (snd c2) (snd h))"
  show ?case
  proof (cases "fst h - snd c1 \<le> g1")
    case True
    then have 2: "fst h - snd c2 \<le> g2" using Cons.prems by simp
    have "snd ?m1 \<le> snd ?m2" using Cons.prems(2) by simp
    from Cons.IH [OF Cons.prems(1) this] show ?thesis using True 2 by simp
  next
    case False
    show ?thesis
    proof (cases "fst h - snd c2 \<le> g2")
      case True
      have "snd h \<le> snd ?m2" by simp
      from Cons.IH [OF Cons.prems(1) this] show ?thesis using True False by simp
    next
      case F2: False
      have "snd h \<le> snd h" by simp
      from Cons.IH [OF Cons.prems(1) this] show ?thesis using F2 False by simp
    qed
  qed
qed

lemma hunk_lines_join:
  "fst a \<le> fst b \<Longrightarrow> fst b \<le> snd a \<Longrightarrow>
   hunk_lines (fst a, max (snd a) (snd b)) = hunk_lines a \<union> hunk_lines b"
  by (auto simp: hunk_lines_def)

lemma region_contains_lines: "region_contains r h \<Longrightarrow> hunk_lines h \<subseteq> hunk_lines r"
  by (auto simp: region_contains_def hunk_lines_def)

lemma merge_close_hunks_Nil: "merge_close_hunks [] g = []"
  by (simp add: merge_close_hunks_def)

lemma merge_close_hunks_not_Nil: "hunks \<noteq> [] \<Longrightarrow> merge_close_hunks hunks g \<noteq> []"
  by (simp add: merge_close_hunks_run merge_run_not_Nil)

lemma merge_close_hunks_sorted: "sorted (map fst (merge_close_hunks hunks g))"
proof (cases "hunks = []")
  case True
  then show ?thesis by (simp add: merge_close_hunks_Nil)
next
  case False
  then show ?thesis
    using merge_run_sorted [OF sorted_hd_tl [OF False]] by (simp add: merge_close_hunks_run)
qed

lemma merge_close_hunks_separated:
  "sorted_wrt (\<lambda>a b. snd a + g < fst b) (merge_close_hunks hunks g)"
proof (cases "hunks = []")
  case True
  then show ?thesis by (simp add: merge_close_hunks_Nil)
next
  case False
  then show ?thesis
    using merge_run_separated [OF sorted_hd_tl [OF False]] by (simp add: merge_close_hunks_run)
qed

lemma merge_close_hunks_contains:
  assumes "h \<in> set hunks"
  shows "\<exists>r \<in> set (merge_close_hunks hunks g). region_contains r h"
proof -
  have ne: "hunks \<noteq> []" using assms by auto
  have "h \<in> set (hd (sort_key fst hunks) # tl (sort_key fst hunks))"
    using assms set_hd_tl [OF ne] by simp
  from merge_run_contains [OF sorted_hd_tl [OF ne] this]
  show ?thesis using ne by (simp add: merge_close_hunks_run)
qed

lemma merge_close_hunks_ends:
  assumes "r \<in> set (merge_close_hunks hunks g)"
  shows "snd r \<in> snd ` set hunks"
proof -
  have ne: "hunks \<noteq> []" using assms by (auto simp: merge_close_hunks_Nil)
  have "r \<in> set (merge_run (hd (sort_key fst hunks)) g (tl (sort_key fst hunks)))"
    using assms ne by (simp add: merge_close_hunks_run)
  from merge_run_ends [OF this] show ?thesis by (simp only: set_hd_tl [OF ne])
qed

lemma merge_close_hunks_starts:
  assumes "r \<in> set (merge_close_hunks hunks g)"
  shows "fst r \<in> fst ` set hunks"
proof -
  have ne: "hunks \<noteq> []" using assms by (auto simp: merge_close_hunks_Nil)
  have "r \<in> set (merge_run (hd (sort_key fst hunks)) g (tl (sort_key fst hunks)))"
    using assms ne by (simp add: merge_close_hunks_run)
  from merge_run_starts [OF this] show ?thesis by (simp only: set_hd_tl [OF ne])
qed

text \<open>
  C1. For every sequence of hunks (ranges with \<open>start \<le> end\<close>, as a hunk header gives
  them) and every \<open>max_gap \<ge> 0\<close>, the regions \<open>merge_close_hunks\<close> returns are sorted
  ascending by start and pairwise non-overlapping (each ends before the next begins, so
  their line sets are disjoint), every input hunk is contained in exactly one region of
  the output, and the empty input gives the empty output.
\<close>

theorem merge_close_hunks_regions:
  assumes gap: "0 \<le> max_gap"
    and wf: "\<forall>h \<in> set hunks. fst h \<le> snd h"
  shows "sorted (map fst (merge_close_hunks hunks max_gap))
    \<and> (\<forall>i j. i < j \<and> j < length (merge_close_hunks hunks max_gap) \<longrightarrow>
          snd (merge_close_hunks hunks max_gap ! i) < fst (merge_close_hunks hunks max_gap ! j)
          \<and> hunk_lines (merge_close_hunks hunks max_gap ! i)
              \<inter> hunk_lines (merge_close_hunks hunks max_gap ! j) = {})
    \<and> (\<forall>h \<in> set hunks. \<exists>!i. i < length (merge_close_hunks hunks max_gap)
          \<and> region_contains (merge_close_hunks hunks max_gap ! i) h)
    \<and> merge_close_hunks [] max_gap = []"
proof -
  let ?R = "merge_close_hunks hunks max_gap"
  have sep: "snd (?R ! i) + max_gap < fst (?R ! j)" if "i < j" "j < length ?R" for i j
    using merge_close_hunks_separated [of max_gap hunks] that
    by (simp add: sorted_wrt_iff_nth_less)
  have before: "snd (?R ! i) < fst (?R ! j)" if "i < j" "j < length ?R" for i j
    using sep [OF that] gap by simp
  have disj: "hunk_lines (?R ! i) \<inter> hunk_lines (?R ! j) = {}"
    if "i < j" "j < length ?R" for i j
    using before [OF that] by (auto simp: hunk_lines_def)
  have uniq: "\<exists>!i. i < length ?R \<and> region_contains (?R ! i) h" if h: "h \<in> set hunks" for h
  proof -
    from merge_close_hunks_contains [OF h, of max_gap]
    obtain i where i: "i < length ?R" "region_contains (?R ! i) h"
      by (auto simp: in_set_conv_nth)
    have "j = i" if j: "j < length ?R" "region_contains (?R ! j) h" for j
    proof (rule ccontr)
      assume "j \<noteq> i"
      then consider "i < j" | "j < i" by linarith
      then show False
      proof cases
        case 1
        from before [OF 1 j(1)] i(2) j(2) wf h show False
          by (auto simp: region_contains_def)
      next
        case 2
        from before [OF 2 i(1)] i(2) j(2) wf h show False
          by (auto simp: region_contains_def)
      qed
    qed
    with i show ?thesis by blast
  qed
  show ?thesis
  proof (intro conjI allI impI ballI)
    show "sorted (map fst ?R)" by (rule merge_close_hunks_sorted)
  next
    fix i j assume "i < j \<and> j < length ?R"
    then show "snd (?R ! i) < fst (?R ! j)" using before by simp
  next
    fix i j assume "i < j \<and> j < length ?R"
    then show "hunk_lines (?R ! i) \<inter> hunk_lines (?R ! j) = {}" using disj by simp
  next
    fix h assume "h \<in> set hunks"
    then show "\<exists>!i. i < length ?R \<and> region_contains (?R ! i) h" by (rule uniq)
  next
    show "merge_close_hunks [] max_gap = []" by (rule merge_close_hunks_Nil)
  qed
qed

theorem merge_close_hunks_regions_witness:
  "(0::int) \<le> 10
   \<and> list_all (\<lambda>h. fst h \<le> snd h) [(30, 31), (5, 8), (15, 18 :: int)]
   \<and> merge_close_hunks [(30, 31), (5, 8), (15, 18)] 10 = [(5, 18), (30, 31)]
   \<and> sorted (map fst (merge_close_hunks [(30, 31), (5, 8), (15, 18)] 10))
   \<and> (\<exists>!i. i < length (merge_close_hunks [(30, 31), (5, 8), (15, 18)] 10)
          \<and> region_contains (merge_close_hunks [(30, 31), (5, 8), (15, 18)] 10 ! i) (15, 18))"
proof -
  have g: "(0::int) \<le> 10" by simp
  have w: "\<forall>h \<in> set [(30, 31), (5, 8), (15, 18 :: int)]. fst h \<le> snd h" by simp
  have v: "merge_close_hunks [(30, 31), (5, 8), (15, 18)] 10 = [(5, 18), (30, 31)]"
    by (simp add: merge_close_hunks_def)
  have m: "(15, 18) \<in> set [(30, 31), (5, 8), (15, 18 :: int)]" by simp
  note r = merge_close_hunks_regions [OF g w]
  have s: "sorted (map fst (merge_close_hunks [(30, 31), (5, 8), (15, 18)] 10))"
    using r by (rule conjunct1)
  have "\<forall>h \<in> set [(30, 31), (5, 8), (15, 18 :: int)].
          \<exists>!i. i < length (merge_close_hunks [(30, 31), (5, 8), (15, 18)] 10)
            \<and> region_contains (merge_close_hunks [(30, 31), (5, 8), (15, 18)] 10 ! i) h"
    using r by (elim conjE)
  then have u: "\<exists>!i. i < length (merge_close_hunks [(30, 31), (5, 8), (15, 18)] 10)
          \<and> region_contains (merge_close_hunks [(30, 31), (5, 8), (15, 18)] 10 ! i) (15, 18)"
    using m by (rule bspec)
  have l: "list_all (\<lambda>h. fst h \<le> snd h) [(30, 31), (5, 8), (15, 18 :: int)]" by simp
  show ?thesis using g l v s u by (intro conjI)
qed

text \<open>
  C9. Merging is idempotent: merging the output of \<open>merge_close_hunks\<close> again with the
  same \<open>max_gap\<close> returns it unchanged. This holds for every hunk sequence and every
  \<open>max_gap\<close>, so in particular for every \<open>max_gap \<ge> 0\<close>.
\<close>

theorem merge_close_hunks_idempotent:
  "merge_close_hunks (merge_close_hunks hunks max_gap) max_gap = merge_close_hunks hunks max_gap"
proof (cases "hunks = []")
  case True
  then show ?thesis by (simp add: merge_close_hunks_Nil)
next
  case False
  let ?R = "merge_close_hunks hunks max_gap"
  have ne: "?R \<noteq> []" using False by (rule merge_close_hunks_not_Nil)
  have "sort_key fst ?R = ?R"
    using merge_close_hunks_sorted by (rule sort_key_id_if_sorted)
  then have "merge_close_hunks ?R max_gap = merge_run (hd ?R) max_gap (tl ?R)"
    using ne by (simp add: merge_close_hunks_run)
  also have "\<dots> = hd ?R # tl ?R"
    using merge_close_hunks_separated [of max_gap hunks] ne
    by (intro merge_run_fixed) simp
  finally show ?thesis using ne by simp
qed

theorem merge_close_hunks_idempotent_witness:
  "merge_close_hunks (merge_close_hunks [(30, 31), (5, 8), (15, 18)] 10) 10 = [(5, 18), (30, 31)]"
proof -
  have "merge_close_hunks [(30, 31), (5, 8), (15, 18)] 10 = [(5, 18), (30, 31)]"
    by (simp add: merge_close_hunks_def)
  then show ?thesis
    using merge_close_hunks_idempotent [of "[(30, 31), (5, 8), (15, 18)]" 10] by simp
qed

text \<open>
  C10. Merging is monotone in the gap: for \<open>max_gap1 \<le> max_gap2\<close> the merger returns
  at most as many regions with \<open>max_gap2\<close> as with \<open>max_gap1\<close>. The proof needs no
  sign condition on the gaps.
\<close>

theorem merge_close_hunks_monotone:
  assumes "max_gap1 \<le> max_gap2"
  shows "length (merge_close_hunks hunks max_gap2) \<le> length (merge_close_hunks hunks max_gap1)"
proof (cases "hunks = []")
  case True
  then show ?thesis by (simp add: merge_close_hunks_Nil)
next
  case False
  then show ?thesis
    using merge_run_length_mono [OF assms order_refl] by (simp add: merge_close_hunks_run)
qed

theorem merge_close_hunks_monotone_witness:
  "(5::int) \<le> 10
   \<and> length (merge_close_hunks [(5, 8), (15, 18)] 10) = 1
   \<and> length (merge_close_hunks [(5, 8), (15, 18)] 5) = 2
   \<and> length (merge_close_hunks [(5, 8), (15, 18)] 10) \<le> length (merge_close_hunks [(5, 8), (15, 18)] 5)"
proof -
  have h: "(5::int) \<le> 10" by simp
  have a: "length (merge_close_hunks [(5, 8), (15, 18)] 10) = 1"
    by (simp add: merge_close_hunks_def)
  have b: "length (merge_close_hunks [(5, 8), (15, 18)] 5) = 2"
    by (simp add: merge_close_hunks_def)
  show ?thesis
    using h a b merge_close_hunks_monotone [OF h, of "[(5, 8), (15, 18)]"] by (intro conjI)
qed


text \<open>
  A line of the output that no hunk covers lies in a gap that the scan closed: at or
  after the end of one hunk and before the start of a later one, the two no more than
  \<open>g\<close> apart.
\<close>

lemma merge_run_extra:
  "x \<in> coverage (merge_run cur g hs) \<Longrightarrow>
   x \<in> coverage (cur # hs)
   \<or> (\<exists>h \<in> set (cur # hs). \<exists>k \<in> set hs. snd h \<le> x \<and> x < fst k \<and> fst k - snd h \<le> g)"
proof (induction hs arbitrary: cur)
  case Nil
  then show ?case by (simp add: coverage_def)
next
  case (Cons h hs)
  let ?c = "(fst cur, max (snd cur) (snd h))"
  show ?case
  proof (cases "fst h - snd cur \<le> g")
    case True
    have "x \<in> coverage (merge_run ?c g hs)" using Cons.prems True by simp
    from Cons.IH [OF this]
    consider "x \<in> hunk_lines ?c" | "x \<in> coverage hs"
      | "\<exists>k \<in> set hs. snd ?c \<le> x \<and> x < fst k \<and> fst k - snd ?c \<le> g"
      | "\<exists>a \<in> set hs. \<exists>k \<in> set hs. snd a \<le> x \<and> x < fst k \<and> fst k - snd a \<le> g"
      by (auto simp: coverage_def)
    then show ?thesis
    proof cases
      case 1
      then have "fst cur \<le> x \<and> (x < snd cur \<or> x < snd h)" by (auto simp: hunk_lines_def)
      then have "x \<in> hunk_lines cur \<or> x \<in> hunk_lines h
                 \<or> (snd cur \<le> x \<and> x < fst h \<and> fst h - snd cur \<le> g)"
        using True by (auto simp: hunk_lines_def)
      then show ?thesis by (auto simp: coverage_def)
    next
      case 2
      then show ?thesis by (auto simp: coverage_def)
    next
      case 3
      then obtain k where k: "k \<in> set hs" "snd ?c \<le> x" "x < fst k" "fst k - snd ?c \<le> g"
        by blast
      have "snd ?c = snd cur \<or> snd ?c = snd h" by (auto simp: max_def)
      then have "\<exists>a \<in> set (cur # h # hs). snd a \<le> x \<and> x < fst k \<and> fst k - snd a \<le> g"
        using k(2-4) by auto
      then show ?thesis using k(1) by auto
    next
      case 4
      then show ?thesis by auto
    qed
  next
    case False
    have "x \<in> hunk_lines cur \<or> x \<in> coverage (merge_run h g hs)"
      using Cons.prems False by (simp add: coverage_def)
    then show ?thesis using Cons.IH [of h] by (auto simp: coverage_def)
  qed
qed

lemma merge_close_hunks_covers:
  "coverage hunks \<subseteq> coverage (merge_close_hunks hunks g)"
proof
  fix x assume "x \<in> coverage hunks"
  then obtain h where h: "h \<in> set hunks" "x \<in> hunk_lines h" by (auto simp: coverage_def)
  from merge_close_hunks_contains [OF h(1), of g]
  obtain r where "r \<in> set (merge_close_hunks hunks g)" "region_contains r h" by blast
  then show "x \<in> coverage (merge_close_hunks hunks g)"
    using h(2) region_contains_lines [of r h] by (auto simp: coverage_def)
qed

lemma merge_close_hunks_extra:
  assumes "x \<in> coverage (merge_close_hunks hunks g) - coverage hunks"
  shows "\<exists>h \<in> set hunks. \<exists>k \<in> set hunks. snd h \<le> x \<and> x < fst k \<and> fst k - snd h \<le> g"
proof -
  have ne: "hunks \<noteq> []" using assms by (auto simp: merge_close_hunks_Nil coverage_def)
  let ?s = "sort_key fst hunks"
  have cov: "coverage (hd ?s # tl ?s) = coverage hunks"
    using set_hd_tl [OF ne] by (simp only: coverage_def)
  have tl: "set (tl ?s) \<subseteq> set hunks" using set_hd_tl [OF ne] by auto
  have "x \<in> coverage (merge_run (hd ?s) g (tl ?s))"
    using assms ne by (simp add: merge_close_hunks_run)
  from merge_run_extra [OF this]
  have "\<exists>h \<in> set (hd ?s # tl ?s). \<exists>k \<in> set (tl ?s).
          snd h \<le> x \<and> x < fst k \<and> fst k - snd h \<le> g"
    using assms cov by blast
  then show ?thesis using set_hd_tl [OF ne] tl by blast
qed

lemma merge_close_hunks_coverage_nonpos:
  assumes "g \<le> 0"
  shows "coverage (merge_close_hunks hunks g) = coverage hunks"
proof
  show "coverage (merge_close_hunks hunks g) \<subseteq> coverage hunks"
  proof (rule ccontr)
    assume "\<not> coverage (merge_close_hunks hunks g) \<subseteq> coverage hunks"
    then obtain x where "x \<in> coverage (merge_close_hunks hunks g) - coverage hunks" by auto
    from merge_close_hunks_extra [OF this] show False using assms by auto
  qed
  show "coverage hunks \<subseteq> coverage (merge_close_hunks hunks g)"
    by (rule merge_close_hunks_covers)
qed

text \<open>
  Conversely, between hunks with \<open>start \<le> end\<close>, every line of such a gap is covered:
  the two hunks lie in the same region.
\<close>

lemma sorted_wrt_two:
  "sorted_wrt P xs \<Longrightarrow> a \<in> set xs \<Longrightarrow> b \<in> set xs \<Longrightarrow> a = b \<or> P a b \<or> P b a"
  by (induction xs) auto

lemma merge_close_hunks_gap_covered:
  assumes h: "h \<in> set hunks" "fst h \<le> snd h" and k: "k \<in> set hunks" "fst k \<le> snd k"
    and x: "snd h \<le> x" "x < fst k" and g: "fst k - snd h \<le> g"
  shows "x \<in> coverage (merge_close_hunks hunks g)"
proof -
  from merge_close_hunks_contains [OF h(1), of g] obtain rh where
    rh: "rh \<in> set (merge_close_hunks hunks g)" "fst rh \<le> fst h" "snd h \<le> snd rh"
    by (auto simp: region_contains_def)
  from merge_close_hunks_contains [OF k(1), of g] obtain rk where
    rk: "rk \<in> set (merge_close_hunks hunks g)" "fst rk \<le> fst k" "snd k \<le> snd rk"
    by (auto simp: region_contains_def)
  from sorted_wrt_two [OF merge_close_hunks_separated rh(1) rk(1)]
  consider "rh = rk" | "snd rh + g < fst rk" | "snd rk + g < fst rh" by blast
  then have "rh = rk"
  proof cases
    case 1
    then show ?thesis .
  next
    case 2
    then have False using rh(3) rk(2) g by linarith
    then show ?thesis ..
  next
    case 3
    then have False using rh(2) rk(3) h(2) k(2) x g by linarith
    then show ?thesis ..
  qed
  then have "snd k \<le> snd rh" using rk(3) by simp
  then have "fst rh \<le> x \<and> x < snd rh" using rh(2) h(2) k(2) x by linarith
  then show ?thesis using rh(1) by (auto simp: coverage_def hunk_lines_def)
qed

text \<open>
  C6 as the spec states it fails: with \<open>max_gap = 10\<close> the hunks \<open>[5, 8)\<close> and
  \<open>[15, 18)\<close> merge into \<open>[5, 18)\<close>, which covers line 10; no input hunk does.
\<close>

theorem merge_close_hunks_coverage_counterexample:
  "coverage (merge_close_hunks [(5, 8), (15, 18)] 10) \<noteq> coverage [(5, 8), (15, 18)]"
proof -
  have m: "merge_close_hunks [(5, 8), (15, 18)] 10 = [(5, 18)]"
    by (simp add: merge_close_hunks_def)
  have "(10::int) \<in> coverage [(5, 18)]" by (simp add: coverage_def hunk_lines_def)
  moreover have "(10::int) \<notin> coverage [(5, 8), (15, 18)]"
    by (simp add: coverage_def hunk_lines_def)
  ultimately show ?thesis using m by auto
qed

text \<open>
  C6, as the code has it. The lines the merged regions cover include every line the
  input hunks cover, and a line of a merged region that no input hunk covers is a line
  of a gap that the merger closed: it lies at or after the end of an input hunk \<open>h\<close> and
  before the start of an input hunk \<open>k\<close> that begins no more than \<open>max_gap\<close> lines after
  the end of \<open>h\<close>. When every hunk has \<open>start \<le> end\<close>, as a hunk header gives it, the
  merged regions cover every line of every such gap, so that they cover exactly the
  lines of the hunks and of these gaps. With \<open>max_gap \<le> 0\<close> there is no such line and
  the two unions are equal (\<open>merge_close_hunks_coverage_nonpos\<close>).
\<close>

theorem merge_close_hunks_coverage:
  "coverage hunks \<subseteq> coverage (merge_close_hunks hunks max_gap)
   \<and> (\<forall>x \<in> coverage (merge_close_hunks hunks max_gap) - coverage hunks.
         \<exists>h \<in> set hunks. \<exists>k \<in> set hunks.
           snd h \<le> x \<and> x < fst k \<and> fst k - snd h \<le> max_gap)
   \<and> ((\<forall>h \<in> set hunks. fst h \<le> snd h) \<longrightarrow>
        coverage (merge_close_hunks hunks max_gap)
        = coverage hunks
          \<union> {x. \<exists>h \<in> set hunks. \<exists>k \<in> set hunks.
                   snd h \<le> x \<and> x < fst k \<and> fst k - snd h \<le> max_gap})"
proof (intro conjI impI ballI)
  show "coverage hunks \<subseteq> coverage (merge_close_hunks hunks max_gap)"
    by (rule merge_close_hunks_covers)
  show "\<exists>h \<in> set hunks. \<exists>k \<in> set hunks.
          snd h \<le> x \<and> x < fst k \<and> fst k - snd h \<le> max_gap"
    if "x \<in> coverage (merge_close_hunks hunks max_gap) - coverage hunks" for x
    using that by (rule merge_close_hunks_extra)
  assume wf: "\<forall>h \<in> set hunks. fst h \<le> snd h"
  let ?gaps = "{x. \<exists>h \<in> set hunks. \<exists>k \<in> set hunks.
                   snd h \<le> x \<and> x < fst k \<and> fst k - snd h \<le> max_gap}"
  show "coverage (merge_close_hunks hunks max_gap) = coverage hunks \<union> ?gaps"
  proof (intro equalityI subsetI)
    fix x assume m: "x \<in> coverage (merge_close_hunks hunks max_gap)"
    show "x \<in> coverage hunks \<union> ?gaps"
    proof (cases "x \<in> coverage hunks")
      case True
      then show ?thesis by simp
    next
      case False
      with m have "x \<in> coverage (merge_close_hunks hunks max_gap) - coverage hunks" by simp
      from merge_close_hunks_extra [OF this] show ?thesis by simp
    qed
  next
    fix x assume "x \<in> coverage hunks \<union> ?gaps"
    then consider "x \<in> coverage hunks" | "x \<in> ?gaps" by blast
    then show "x \<in> coverage (merge_close_hunks hunks max_gap)"
    proof cases
      case 1
      then show ?thesis using merge_close_hunks_covers [of hunks max_gap] by blast
    next
      case 2
      then obtain h k where "h \<in> set hunks" "k \<in> set hunks"
        "snd h \<le> x" "x < fst k" "fst k - snd h \<le> max_gap"
        by blast
      then show ?thesis using wf by (intro merge_close_hunks_gap_covered [of h hunks k]) auto
    qed
  qed
qed

theorem merge_close_hunks_coverage_witness:
  "(10::int) \<in> coverage (merge_close_hunks [(5, 8), (15, 18)] 10) - coverage [(5, 8), (15, 18)]
   \<and> (\<exists>h \<in> set ([(5, 8), (15, 18)] :: hunk list). \<exists>k \<in> set ([(5, 8), (15, 18)] :: hunk list).
         snd h \<le> 10 \<and> 10 < fst k \<and> fst k - snd h \<le> 10)
   \<and> list_all (\<lambda>h. fst h \<le> snd h) ([(5, 8), (15, 18)] :: hunk list)
   \<and> coverage (merge_close_hunks [(5, 8), (15, 18)] 10)
       = coverage [(5, 8), (15, 18)]
         \<union> {x. \<exists>h \<in> set ([(5, 8), (15, 18)] :: hunk list).
                  \<exists>k \<in> set ([(5, 8), (15, 18)] :: hunk list).
                    snd h \<le> x \<and> x < fst k \<and> fst k - snd h \<le> 10}"
proof -
  have m: "merge_close_hunks [(5, 8), (15, 18)] 10 = [(5, 18)]"
    by (simp add: merge_close_hunks_def)
  have x: "(10::int) \<in> coverage (merge_close_hunks [(5, 8), (15, 18)] 10)
             - coverage [(5, 8), (15, 18)]"
    unfolding m by (simp add: coverage_def hunk_lines_def)
  note t = merge_close_hunks_coverage [of "[(5, 8), (15, 18)]" 10]
  have "\<forall>x \<in> coverage (merge_close_hunks [(5, 8), (15, 18)] 10) - coverage [(5, 8), (15, 18)].
          \<exists>h \<in> set ([(5, 8), (15, 18)] :: hunk list). \<exists>k \<in> set ([(5, 8), (15, 18)] :: hunk list).
            snd h \<le> x \<and> x < fst k \<and> fst k - snd h \<le> 10"
    using t by (elim conjE)
  then have e: "\<exists>h \<in> set ([(5, 8), (15, 18)] :: hunk list). \<exists>k \<in> set ([(5, 8), (15, 18)] :: hunk list).
               snd h \<le> 10 \<and> 10 < fst k \<and> fst k - snd h \<le> 10"
    using x by (rule bspec)
  have w: "list_all (\<lambda>h. fst h \<le> snd h) ([(5, 8), (15, 18)] :: hunk list)" by simp
  then have "\<forall>h \<in> set ([(5, 8), (15, 18)] :: hunk list). fst h \<le> snd h"
    by (simp only: list_all_iff)
  moreover have "(\<forall>h \<in> set ([(5, 8), (15, 18)] :: hunk list). fst h \<le> snd h) \<longrightarrow>
      coverage (merge_close_hunks [(5, 8), (15, 18)] 10)
       = coverage [(5, 8), (15, 18)]
         \<union> {x. \<exists>h \<in> set ([(5, 8), (15, 18)] :: hunk list).
                  \<exists>k \<in> set ([(5, 8), (15, 18)] :: hunk list).
                    snd h \<le> x \<and> x < fst k \<and> fst k - snd h \<le> 10}"
    using t by (elim conjE)
  ultimately have c: "coverage (merge_close_hunks [(5, 8), (15, 18)] 10)
       = coverage [(5, 8), (15, 18)]
         \<union> {x. \<exists>h \<in> set ([(5, 8), (15, 18)] :: hunk list).
                  \<exists>k \<in> set ([(5, 8), (15, 18)] :: hunk list).
                    snd h \<le> x \<and> x < fst k \<and> fst k - snd h \<le> 10}"
    by (rule rev_mp)
  show ?thesis using x e w c by (intro conjI)
qed

section \<open>Properties of the parser\<close>

lemma not_digit_comma: "\<not> is_digit py 44"
  by (simp add: is_digit_def digit_block_def)

lemma lit_comma: "lit '','' = [44]"
  by (simp add: lit_def)

lemma lit_space: "lit '' '' = [32]"
  by (simp add: lit_def)

lemma not_digit_space: "\<not> is_digit py 32"
  by (simp add: is_digit_def digit_block_def)

lemma drop_in_run:
  assumes "k < length (takeWhile P s)"
  shows "drop k s \<noteq> [] \<and> P (hd (drop k s))"
proof -
  have k: "k < length s" using assms length_takeWhile_le [of P s] by simp
  have "takeWhile P s ! k \<in> set (takeWhile P s)" using assms by simp
  then have "P (takeWhile P s ! k)" by (auto dest: set_takeWhileD)
  then have "P (s ! k)" using takeWhile_nth [OF assms] by simp
  then show ?thesis using k by (simp add: hd_drop_conv_nth)
qed

lemma dropWhile_drop_run:
  assumes "k \<le> length (takeWhile P s)"
  shows "dropWhile P (drop k s) = dropWhile P s"
    and "takeWhile P (drop k s) = drop k (takeWhile P s)"
proof -
  have s: "s = takeWhile P s @ dropWhile P s" by simp
  have d: "drop k s = drop k (takeWhile P s) @ dropWhile P s"
    using assms by (subst s) (simp only: drop_append, simp)
  have a: "\<And>x. x \<in> set (drop k (takeWhile P s)) \<Longrightarrow> P x"
    by (auto dest: in_set_dropD set_takeWhileD)
  show "dropWhile P (drop k s) = dropWhile P s"
    by (subst d) (simp add: dropWhile_append2 a)
  have "takeWhile P (drop k s) = drop k (takeWhile P s) @ takeWhile P (dropWhile P s)"
    by (subst d) (simp add: a)
  moreover have "takeWhile P (dropWhile P s) = []"
  proof (cases "dropWhile P s")
    case Nil
    show ?thesis by (simp only: Nil takeWhile.simps)
  next
    case (Cons a list)
    then have "\<not> P a" using hd_dropWhile [of P s] by simp
    then show ?thesis by (simp only: Cons takeWhile.simps if_False)
  qed
  ultimately show "takeWhile P (drop k s) = drop k (takeWhile P s)" by simp
qed

lemma startswith_Cons: "startswith s (c # p) \<Longrightarrow> s \<noteq> [] \<and> hd s = c"
  by (cases s) (auto simp: startswith_def)

lemma startswith_space_hd: "startswith s (lit '' '') \<Longrightarrow> s \<noteq> [] \<and> hd s = 32"
  unfolding lit_space by (rule startswith_Cons)

lemma startswith_comma_hd: "startswith s (lit '','') \<Longrightarrow> s \<noteq> [] \<and> hd s = 44"
  unfolding lit_comma by (rule startswith_Cons)

lemma length_lit: "length (lit s) = length s"
  by (simp add: lit_def)

lemma rx_digits_mem:
  "(a, r) \<in> set (rx_digits py m s) \<Longrightarrow>
   \<exists>k. m \<le> k \<and> k \<le> length (takeWhile (is_digit py) s) \<and> a = take k s \<and> r = drop k s"
  by (auto simp: rx_digits_def)

lemma rx_opt_comma_mem:
  "r2 \<in> set (rx_opt_comma r1) \<Longrightarrow>
   r2 = r1 \<or> (startswith r1 (lit '','') \<and> r2 = drop 1 r1)"
  by (auto simp: rx_opt_comma_def split: if_splits)

lemma rx_range_mem:
  assumes "(g, r) \<in> set (rx_range py s)"
  shows "\<exists>k1 r2 k2. 1 \<le> k1 \<and> k1 \<le> length (takeWhile (is_digit py) s)
           \<and> (r2 = drop k1 s \<or> (startswith (drop k1 s) (lit '','') \<and> r2 = drop 1 (drop k1 s)))
           \<and> k2 \<le> length (takeWhile (is_digit py) r2) \<and> r = drop k2 r2"
proof -
  from assms obtain a r1 r2 b where
    1: "(a, r1) \<in> set (rx_digits py 1 s)" and 2: "r2 \<in> set (rx_opt_comma r1)"
    and 3: "(b, r) \<in> set (rx_digits py 0 r2)"
    by (auto simp: rx_range_def)
  from rx_digits_mem [OF 1] obtain k1 where
    k1: "1 \<le> k1" "k1 \<le> length (takeWhile (is_digit py) s)" "r1 = drop k1 s" by blast
  from rx_digits_mem [OF 3] obtain k2 where
    k2: "k2 \<le> length (takeWhile (is_digit py) r2)" "r = drop k2 r2" by blast
  from rx_opt_comma_mem [OF 2] k1(3)
  have "r2 = drop k1 s \<or> (startswith (drop k1 s) (lit '','') \<and> r2 = drop 1 (drop k1 s))" by simp
  with k1 k2 show ?thesis by blast
qed

text \<open>An alternative of the range whose rest begins with a space leaves the greedy rest.\<close>

lemma rx_range_rest:
  assumes m: "(g, r) \<in> set (rx_range py s)" and sp: "startswith r (lit '' '')"
  shows "\<exists>g0. lax_range py s = Some (g0, r)"
proof -
  from rx_range_mem [OF m] obtain k1 r2 k2 where
    k1: "1 \<le> k1" "k1 \<le> length (takeWhile (is_digit py) s)"
    and r2: "r2 = drop k1 s \<or> (startswith (drop k1 s) (lit '','') \<and> r2 = drop 1 (drop k1 s))"
    and k2: "k2 \<le> length (takeWhile (is_digit py) r2)" and r: "r = drop k2 r2"
    by blast
  have hdr: "r \<noteq> [] \<and> hd r = 32" using sp by (rule startswith_space_hd)
  have "k2 = length (takeWhile (is_digit py) r2)"
  proof (rule ccontr)
    assume "k2 \<noteq> length (takeWhile (is_digit py) r2)"
    then have "k2 < length (takeWhile (is_digit py) r2)" using k2 by simp
    from drop_in_run [OF this] show False using r hdr not_digit_space by simp
  qed
  then have rr: "r = dropWhile (is_digit py) r2" using r by (simp add: dropWhile_eq_drop)
  have a: "takeWhile (is_digit py) s \<noteq> []" using k1 by auto
  show ?thesis
  proof (cases "r2 = drop k1 s")
    case True
    then have "r = dropWhile (is_digit py) s" using rr dropWhile_drop_run(1) [OF k1(2)] by simp
    moreover from this have "\<not> startswith (dropWhile (is_digit py) s) (lit '','')"
      using hdr by (auto dest: startswith_comma_hd)
    ultimately show ?thesis using a by (simp add: lax_range_def Let_def)
  next
    case False
    then have c: "startswith (drop k1 s) (lit '','')" and r2': "r2 = drop 1 (drop k1 s)"
      using r2 by auto
    have "k1 = length (takeWhile (is_digit py) s)"
    proof (rule ccontr)
      assume "k1 \<noteq> length (takeWhile (is_digit py) s)"
      then have "k1 < length (takeWhile (is_digit py) s)" using k1 by simp
      from drop_in_run [OF this] show False
        using startswith_comma_hd [OF c] not_digit_comma by simp
    qed
    then have "drop k1 s = dropWhile (is_digit py) s" by (simp add: dropWhile_eq_drop)
    then show ?thesis using a c r2' rr by (simp add: lax_range_def Let_def)
  qed
qed

text \<open>The first alternative of the range is the greedy one.\<close>

lemma rx_digits_hd:
  assumes "m \<le> length (takeWhile (is_digit py) s)"
  shows "\<exists>rest. rx_digits py m s = (takeWhile (is_digit py) s, dropWhile (is_digit py) s) # rest"
proof -
  let ?n = "length (takeWhile (is_digit py) s)"
  have "[m ..< Suc ?n] = [m ..< ?n] @ [?n]" using assms by simp
  then have "rev [m ..< Suc ?n] = ?n # rev [m ..< ?n]" by simp
  then show ?thesis
    using takeWhile_eq_take [of "is_digit py" s] dropWhile_eq_drop [of "is_digit py" s]
    by (simp add: rx_digits_def)
qed

lemma rx_digits_Nil: "length (takeWhile (is_digit py) s) < m \<Longrightarrow> rx_digits py m s = []"
  by (simp add: rx_digits_def)

lemma rx_range_None: "lax_range py s = None \<Longrightarrow> rx_range py s = []"
proof -
  assume "lax_range py s = None"
  then have "takeWhile (is_digit py) s = []"
    by (simp add: lax_range_def Let_def split: if_splits)
  then have "rx_digits py 1 s = []" by (simp add: rx_digits_Nil)
  then show ?thesis by (simp add: rx_range_def)
qed

lemma rx_range_hd:
  assumes "lax_range py s = Some x"
  shows "\<exists>rest. rx_range py s = x # rest"
proof -
  let ?a = "takeWhile (is_digit py) s" and ?t = "dropWhile (is_digit py) s"
  have a: "?a \<noteq> []" using assms by (auto simp: lax_range_def Let_def split: if_splits)
  then have "1 \<le> length ?a" by (cases ?a) auto
  from rx_digits_hd [OF this] obtain rest1 where
    d1: "rx_digits py 1 s = (?a, ?t) # rest1" by blast
  show ?thesis
  proof (cases "startswith ?t (lit '','')")
    case True
    then have x: "x = ((?a, takeWhile (is_digit py) (drop 1 ?t)), dropWhile (is_digit py) (drop 1 ?t))"
      using assms a by (simp add: lax_range_def Let_def)
    obtain rest2 where
      d2: "rx_digits py 0 (drop 1 ?t)
             = (takeWhile (is_digit py) (drop 1 ?t), dropWhile (is_digit py) (drop 1 ?t)) # rest2"
      using rx_digits_hd [of 0 py "drop 1 ?t"] by auto
    show ?thesis using True d1 d2 x by (simp add: rx_range_def rx_opt_comma_def)
  next
    case False
    then have x: "x = ((?a, []), ?t)" using assms a by (simp add: lax_range_def Let_def)
    have "takeWhile (is_digit py) ?t = []"
      using dropWhile_drop_run(2) [of "length ?a" "is_digit py" s] by (simp add: dropWhile_eq_drop)
    then have "rx_digits py 0 ?t = [([], ?t)]" by (simp add: rx_digits_def)
    then show ?thesis using False d1 x by (simp add: rx_range_def rx_opt_comma_def)
  qed
qed

lemma rx_range_first:
  assumes emp: "\<And>g r. (F (g, r) = []) = (\<not> ok r)"
    and sp: "\<And>r. ok r \<Longrightarrow> startswith r (lit '' '')"
  shows "(concat (map F (rx_range py s)) = []) = (\<forall>g r. lax_range py s = Some (g, r) \<longrightarrow> \<not> ok r)"
    and "lax_range py s = Some (g, r) \<Longrightarrow> ok r \<Longrightarrow>
         concat (map F (rx_range py s)) \<noteq> []
         \<and> hd (concat (map F (rx_range py s))) = hd (F (g, r))"
proof -
  show "(concat (map F (rx_range py s)) = []) = (\<forall>g r. lax_range py s = Some (g, r) \<longrightarrow> \<not> ok r)"
  proof (cases "lax_range py s")
    case None
    then show ?thesis by (simp add: rx_range_None)
  next
    case (Some x)
    obtain g0 r0 where x: "x = (g0, r0)" by (cases x)
    from rx_range_hd [OF Some] obtain rest where hd: "rx_range py s = (g0, r0) # rest"
      using x by blast
    show ?thesis
    proof (cases "ok r0")
      case True
      then have "F (g0, r0) \<noteq> []" using emp by simp
      then show ?thesis using hd Some x True by simp
    next
      case False
      have "F y = []" if y: "y \<in> set (rx_range py s)" for y
      proof (rule ccontr)
        assume ne: "F y \<noteq> []"
        obtain g1 r1 where y1: "y = (g1, r1)" by (cases y)
        have "ok r1" using ne emp y1 by simp
        then have "startswith r1 (lit '' '')" by (rule sp)
        from rx_range_rest [OF _ this] y y1 obtain g2 where "lax_range py s = Some (g2, r1)"
          by blast
        then have "r1 = r0" using Some x by simp
        then show False using \<open>ok r1\<close> False by simp
      qed
      then have "concat (map F (rx_range py s)) = []" by simp
      then show ?thesis using Some x False by simp
    qed
  qed
next
  assume l: "lax_range py s = Some (g, r)" and ok: "ok r"
  from rx_range_hd [OF l] obtain rest where hd: "rx_range py s = (g, r) # rest" by blast
  have "F (g, r) \<noteq> []" using emp ok by simp
  then show "concat (map F (rx_range py s)) \<noteq> []
         \<and> hd (concat (map F (rx_range py s))) = hd (F (g, r))"
    using hd by simp
qed

lemma hunk_header_at_tail:
  "hunk_header_at py s = concat (map (\<lambda>r0. concat (map (tail_new py) (rx_range py r0))) (rx_lit (lit ''@@ -'') s))"
  by (simp add: hunk_header_at_def tail_new_def tail_close_def)

lemma startswith_space:
  "startswith r (lit '' @@'') \<Longrightarrow> startswith r (lit '' '')"
  "startswith r (lit '' +'') \<Longrightarrow> startswith r (lit '' '')"
  by (cases r; simp add: startswith_def lit_def)+

lemma tail_close_empty: "(tail_close g (g', r3) = []) = (\<not> startswith r3 (lit '' @@''))"
  by (simp add: tail_close_def rx_lit_def)

lemma tail_close_hd: "startswith r3 (lit '' @@'') \<Longrightarrow> hd (tail_close g (g', r3)) = g"
  by (simp add: tail_close_def rx_lit_def)

lemma tail_new_empty: "(tail_new py (g, r1) = []) = (\<not> ok_new py r1)"
proof (cases "startswith r1 (lit '' +'')")
  case False
  then show ?thesis by (simp add: tail_new_def rx_lit_def ok_new_def)
next
  case True
  have "tail_new py (g, r1) = concat (map (tail_close g) (rx_range py (drop 2 r1)))"
    using True by (simp add: tail_new_def rx_lit_def length_lit eval_nat_numeral)
  moreover have "(concat (map (tail_close g) (rx_range py (drop 2 r1))) = [])
      = (\<forall>g' r3. lax_range py (drop 2 r1) = Some (g', r3) \<longrightarrow> \<not> startswith r3 (lit '' @@''))"
    by (rule rx_range_first(1) [where F = "tail_close g"])
       (simp_all add: tail_close_empty startswith_space)
  ultimately show ?thesis using True by (simp add: ok_new_def)
qed

lemma tail_new_hd:
  assumes "ok_new py r1"
  shows "hd (tail_new py (g, r1)) = g"
proof -
  from assms obtain g' r3 where s: "startswith r1 (lit '' +'')"
    and l: "lax_range py (drop 2 r1) = Some (g', r3)" and c: "startswith r3 (lit '' @@'')"
    by (auto simp: ok_new_def)
  have t: "tail_new py (g, r1) = concat (map (tail_close g) (rx_range py (drop 2 r1)))"
    using s by (simp add: tail_new_def rx_lit_def length_lit eval_nat_numeral)
  have "hd (concat (map (tail_close g) (rx_range py (drop 2 r1)))) = hd (tail_close g (g', r3))"
    using rx_range_first(2) [where F = "tail_close g" and ok = "\<lambda>r. startswith r (lit '' @@'')", OF _ _ l c]
    by (simp add: tail_close_empty startswith_space)
  then show ?thesis using t tail_close_hd [OF c] by simp
qed

lemma lax_header_at_Some:
  "(lax_header_at py s = Some g) =
   (startswith s (lit ''@@ -'') \<and> (\<exists>r1. lax_range py (drop 4 s) = Some (g, r1) \<and> ok_new py r1))"
  by (auto simp: lax_header_at_def ok_new_def split: option.splits if_splits)

lemma ok_new_space: "ok_new py r \<Longrightarrow> startswith r (lit '' '')"
  by (simp add: ok_new_def startswith_space)

text \<open>The first match of the backtracking matcher is what the greedy reader returns.\<close>

lemma hunk_header_at_first:
  "(case hunk_header_at py s of [] \<Rightarrow> None | m # _ \<Rightarrow> Some m) = lax_header_at py s"
proof (cases "startswith s (lit ''@@ -'')")
  case False
  then show ?thesis by (simp add: hunk_header_at_def rx_lit_def lax_header_at_def)
next
  case True
  have h: "hunk_header_at py s = concat (map (tail_new py) (rx_range py (drop 4 s)))"
    using True by (simp add: hunk_header_at_tail rx_lit_def length_lit eval_nat_numeral)
  show ?thesis
  proof (cases "lax_header_at py s")
    case None
    then have "\<forall>g r. lax_range py (drop 4 s) = Some (g, r) \<longrightarrow> \<not> ok_new py r"
      using True lax_header_at_Some [of py s] by auto
    then have "concat (map (tail_new py) (rx_range py (drop 4 s))) = []"
      using rx_range_first(1) [where F = "tail_new py" and ok = "ok_new py" and s = "drop 4 s"]
      by (simp add: tail_new_empty ok_new_space)
    then have "hunk_header_at py s = []" by (simp only: h)
    then show ?thesis by (simp only: None list.case)
  next
    case (Some g)
    then obtain r1 where l: "lax_range py (drop 4 s) = Some (g, r1)" and ok: "ok_new py r1"
      using lax_header_at_Some [of py s g] by auto
    have "concat (map (tail_new py) (rx_range py (drop 4 s))) \<noteq> []
          \<and> hd (concat (map (tail_new py) (rx_range py (drop 4 s)))) = hd (tail_new py (g, r1))"
      using rx_range_first(2) [where F = "tail_new py" and ok = "ok_new py", OF _ _ l ok]
      by (simp add: tail_new_empty ok_new_space)
    then have "hunk_header_at py s \<noteq> [] \<and> hd (hunk_header_at py s) = g"
      using h tail_new_hd [OF ok] by simp
    then show ?thesis using Some by (cases "hunk_header_at py s") auto
  qed
qed

lemma re_search_lax: "re_search py s = lax_search py s"
proof (induction s)
  case Nil
  have "re_search py [] = (case hunk_header_at py [] of [] \<Rightarrow> None | m # _ \<Rightarrow> Some m)"
    by (cases "hunk_header_at py []") simp_all
  then show ?case using hunk_header_at_first [of py "[]"]
    by (simp split: option.splits)
next
  case (Cons c s)
  show ?case
  proof (cases "hunk_header_at py (c # s)")
    case Nil
    then have "lax_header_at py (c # s) = None" using hunk_header_at_first [of py "c # s"] by simp
    then show ?thesis using Nil Cons.IH by simp
  next
    case (Cons m ms)
    then have "lax_header_at py (c # s) = Some m" using hunk_header_at_first [of py "c # s"] by simp
    then show ?thesis using Cons by simp
  qed
qed

text \<open>
  The loop, line by line: it raises when some line does, and otherwise appends what each
  line contributes.
\<close>

lemma parse_loop_step:
  assumes "startswith line (lit ''@@'')" and "lax_search py line = Some g"
  shows "parse_loop py acc (line # lines) =
           (if header_raises py g then Inl ValueError
            else parse_loop py (acc @ [header_hunk py g]) lines)"
proof -
  obtain g1 g2 where g: "g = (g1, g2)" by (cases g)
  show ?thesis
    using assms g
    by (simp add: re_search_lax header_hunk_def header_raises_def py_int_def Let_def
          del: re_search.simps lax_search.simps)
qed

lemma parse_loop_skip:
  assumes "\<not> startswith line (lit ''@@'') \<or> lax_search py line = None"
  shows "parse_loop py acc (line # lines) = parse_loop py acc lines"
    and "lax_line_hunks py line = []" and "\<not> line_raises py line"
  using assms
  by (auto simp: re_search_lax lax_line_hunks_def line_raises_def
        simp del: re_search.simps lax_search.simps)

lemma parse_loop_lines:
  "parse_loop py acc lines =
     (if list_ex (line_raises py) lines then Inl ValueError
      else Inr (acc @ concat (map (lax_line_hunks py) lines)))"
proof (induction lines arbitrary: acc)
  case Nil
  show ?case by simp
next
  case (Cons line lines)
  show ?case
  proof (cases "startswith line (lit ''@@'') \<and> lax_search py line \<noteq> None")
    case False
    then have skip: "\<not> startswith line (lit ''@@'') \<or> lax_search py line = None" by blast
    show ?thesis
      using parse_loop_skip [OF skip] Cons.IH [of acc] by (simp del: parse_loop.simps)
  next
    case True
    then obtain g where s: "startswith line (lit ''@@'')" and g: "lax_search py line = Some g"
      by blast
    have r: "line_raises py line = header_raises py g"
      using s g by (simp add: line_raises_def del: lax_search.simps)
    have here: "lax_line_hunks py line = [header_hunk py g]"
      using s g by (simp add: lax_line_hunks_def del: lax_search.simps)
    show ?thesis
      using parse_loop_step [OF s g, of acc lines] Cons.IH [of "acc @ [header_hunk py g]"] r here
      by (simp del: parse_loop.simps)
  qed
qed

lemma split_nl_Nil_lines:
  "\<not> list_ex (line_raises py) (split_nl []) \<and> concat (map (lax_line_hunks py) (split_nl [])) = []"
  by (simp add: lax_line_hunks_def line_raises_def startswith_def lit_def)

lemma parse_patch_hunks_Some:
  "parse_patch_hunks py (Some p) =
     (if list_ex (line_raises py) (split_nl p) then Inl ValueError
      else Inr (concat (map (lax_line_hunks py) (split_nl p))))"
proof (cases "p = []")
  case True
  then show ?thesis using split_nl_Nil_lines [of py] by (simp add: parse_patch_hunks_def)
next
  case False
  then show ?thesis using parse_loop_lines [of py "[]"] by (simp add: parse_patch_hunks_def)
qed

lemma parse_patch_hunks_Inr:
  "parse_patch_hunks py (Some p) = Inr hunks \<Longrightarrow>
   hunks = concat (map (lax_line_hunks py) (split_nl p))"
  by (simp add: parse_patch_hunks_Some split: if_splits)

lemma digit_val_nonneg: "0 \<le> digit_val py c"
proof (cases "c < 128")
  case True
  then show ?thesis by (simp add: digit_val_def digit_block_def)
next
  case False
  show ?thesis
  proof (cases "find (\<lambda>z. 128 \<le> z \<and> z \<le> c \<and> c < z + 10) (decimal_blocks py)")
    case None
    then show ?thesis using False by (simp add: digit_val_def digit_block_def)
  next
    case (Some z)
    then have "z \<le> c" by (auto simp: find_Some_iff)
    then show ?thesis using False Some by (simp add: digit_val_def digit_block_def)
  qed
qed

lemma digits_value_acc_nonneg:
  "0 \<le> n \<Longrightarrow> 0 \<le> foldl (\<lambda>n c. 10 * n + digit_val py c) n s"
proof (induction s arbitrary: n)
  case Nil
  then show ?case by simp
next
  case (Cons c s)
  have "0 \<le> 10 * n + digit_val py c" using Cons.prems digit_val_nonneg [of py c] by simp
  then show ?case using Cons.IH by simp
qed

lemma digits_value_nonneg: "0 \<le> digits_value py s"
  by (simp add: digits_value_def digits_value_acc_nonneg)

text \<open>The groups of a match are runs of digits, the first not empty.\<close>

lemma takeWhile_digits: "\<forall>c \<in> set (takeWhile (is_digit py) s). is_digit py c"
  by (auto dest: set_takeWhileD)

lemma lax_range_digits:
  "lax_range py s = Some ((a, b), r) \<Longrightarrow>
   a \<noteq> [] \<and> (\<forall>c \<in> set a. is_digit py c) \<and> (\<forall>c \<in> set b. is_digit py c)"
  using takeWhile_digits by (auto simp: lax_range_def Let_def split: if_splits)

lemma lax_header_at_digits:
  "lax_header_at py s = Some (a, b) \<Longrightarrow>
   a \<noteq> [] \<and> (\<forall>c \<in> set a. is_digit py c) \<and> (\<forall>c \<in> set b. is_digit py c)"
proof -
  assume "lax_header_at py s = Some (a, b)"
  then obtain r1 where "lax_range py (drop 4 s) = Some ((a, b), r1)"
    by (auto simp: lax_header_at_Some)
  then show ?thesis by (rule lax_range_digits)
qed

lemma lax_search_digits:
  "lax_search py s = Some (a, b) \<Longrightarrow>
   a \<noteq> [] \<and> (\<forall>c \<in> set a. is_digit py c) \<and> (\<forall>c \<in> set b. is_digit py c)"
proof (induction s)
  case Nil
  then show ?case using lax_header_at_digits [of py "[]" a b] by (simp split: option.splits)
next
  case (Cons c s)
  show ?case
  proof (cases "lax_header_at py (c # s)")
    case None
    then show ?thesis using Cons by simp
  next
    case (Some m)
    then show ?thesis using Cons.prems lax_header_at_digits [of py "c # s" a b] by simp
  qed
qed

lemma header_hunk_wf:
  "0 \<le> fst (header_hunk py g) \<and> fst (header_hunk py g) \<le> snd (header_hunk py g)"
  using digits_value_nonneg [of py "fst g"] digits_value_nonneg [of py "snd g"]
  by (simp add: header_hunk_def)

lemma lax_line_hunks_wf:
  assumes "h \<in> set (lax_line_hunks py line)"
  shows "0 \<le> fst h \<and> fst h \<le> snd h"
proof (cases "lax_search py line")
  case None
  then have "lax_line_hunks py line = []"
    by (simp add: lax_line_hunks_def del: lax_search.simps)
  then show ?thesis using assms by simp
next
  case (Some g)
  then have "lax_line_hunks py line = [header_hunk py g] \<or> lax_line_hunks py line = []"
    by (simp add: lax_line_hunks_def del: lax_search.simps)
  then have h: "h = header_hunk py g" using assms by auto
  show ?thesis using h header_hunk_wf [of py g] by simp
qed

lemma startswith_append: "startswith s (p @ q) \<Longrightarrow> startswith s p"
  unfolding startswith_def
proof -
  assume a: "take (length (p @ q)) s = p @ q"
  have "take (length p) s = take (length p) (take (length (p @ q)) s)" by (simp add: min_def)
  also have "\<dots> = take (length p) (p @ q)" by (simp only: a)
  finally show "take (length p) s = p" by simp
qed

lemma parse_patch_hunks_wf:
  assumes "parse_patch_hunks py p = Inr hunks" and "h \<in> set hunks"
  shows "0 \<le> fst h \<and> fst h \<le> snd h"
proof (cases p)
  case None
  then show ?thesis using assms by (simp add: parse_patch_hunks_def)
next
  case (Some t)
  then have "hunks = concat (map (lax_line_hunks py) (split_nl t))"
    using assms(1) by (simp add: parse_patch_hunks_Inr)
  then obtain line where "h \<in> set (lax_line_hunks py line)"
    using assms(2) by auto
  then show ?thesis by (rule lax_line_hunks_wf)
qed

text \<open>A line of the strict syntax is read the same way by the code.\<close>

lemma spec_range_lax:
  assumes "spec_range py s = Some ((a, c), r)" and "startswith r (lit '' '')"
  shows "lax_range py s = Some ((a, case c of None \<Rightarrow> [] | Some d \<Rightarrow> d), r)
         \<and> (\<forall>d. c = Some d \<longrightarrow> d \<noteq> [])"
proof (cases "startswith (dropWhile (is_digit py) s) (lit '','')")
  case False
  then show ?thesis using assms(1)
    by (auto simp: spec_range_def lax_range_def Let_def split: if_splits)
next
  case True
  show ?thesis
  proof (cases "takeWhile (is_digit py) (drop 1 (dropWhile (is_digit py) s)) = []")
    case False
    then show ?thesis using assms(1) True
      by (auto simp: spec_range_def lax_range_def Let_def split: if_splits)
  next
    case e: True
    then have "r = dropWhile (is_digit py) s" using assms(1)
      by (auto simp: spec_range_def Let_def split: if_splits)
    then have "hd r = 44" using True by (auto dest: startswith_comma_hd)
    then show ?thesis using startswith_space_hd [OF assms(2)] by simp
  qed
qed

lemma spec_header_line_lax:
  assumes "spec_header_line py line = Some old"
  shows "lax_header_at py line = Some (fst old, case snd old of None \<Rightarrow> [] | Some d \<Rightarrow> d)
         \<and> (\<forall>d. snd old = Some d \<longrightarrow> d \<noteq> [])"
proof -
  from assms obtain r1 new r3 where s: "startswith line (lit ''@@ -'')"
    and 1: "spec_range py (drop 4 line) = Some (old, r1)" and p: "startswith r1 (lit '' +'')"
    and 2: "spec_range py (drop 2 r1) = Some (new, r3)" and c: "startswith r3 (lit '' @@'')"
    by (auto simp: spec_header_line_def split: if_splits option.splits)
  obtain a c1 where old: "old = (a, c1)" by (cases old)
  obtain a2 c2 where new: "new = (a2, c2)" by (cases new)
  from spec_range_lax [OF 1 [unfolded old] startswith_space(2) [OF p]]
  have l1: "lax_range py (drop 4 line) = Some ((a, case c1 of None \<Rightarrow> [] | Some d \<Rightarrow> d), r1)"
    and ne: "\<forall>d. c1 = Some d \<longrightarrow> d \<noteq> []" by simp_all
  from spec_range_lax [OF 2 [unfolded new] startswith_space(1) [OF c]]
  have l2: "lax_range py (drop 2 r1) = Some ((a2, case c2 of None \<Rightarrow> [] | Some d \<Rightarrow> d), r3)"
    by simp
  have "ok_new py r1" using p l2 c by (auto simp: ok_new_def)
  then show ?thesis using s l1 ne old by (simp add: lax_header_at_Some)
qed

lemma spec_header_line_hunks:
  assumes "spec_header_line py line = Some old"
  shows "lax_line_hunks py line = [spec_hunk py old]"
    and "line_raises py line = spec_raises py old"
proof -
  let ?g = "(fst old, case snd old of None \<Rightarrow> [] | Some d \<Rightarrow> d)"
  from spec_header_line_lax [OF assms]
  have l: "lax_header_at py line = Some ?g"
    and ne: "\<forall>d. snd old = Some d \<longrightarrow> d \<noteq> []" by simp_all
  have "lit ''@@ -'' = lit ''@@'' @ lit '' -''" by (simp add: lit_def)
  then have "startswith line (lit ''@@'' @ lit '' -'')"
    using assms by (simp add: spec_header_line_def split: if_splits)
  then have s: "startswith line (lit ''@@'')" by (rule startswith_append)
  have f: "lax_search py line = Some ?g" using l by simp
  have "header_hunk py ?g = spec_hunk py old"
    using ne by (cases "snd old") (simp_all add: header_hunk_def spec_hunk_def)
  then show "lax_line_hunks py line = [spec_hunk py old]"
    using s f by (simp add: lax_line_hunks_def del: lax_search.simps)
  have "header_raises py ?g = spec_raises py old"
    using ne by (cases "snd old") (simp_all add: header_raises_def spec_raises_def)
  then show "line_raises py line = spec_raises py old"
    using s f by (simp add: line_raises_def del: lax_search.simps)
qed

lemma lax_line_hunks_length: "length (lax_line_hunks py line) \<le> 1"
  by (simp add: lax_line_hunks_def split: option.splits del: lax_search.simps)

text \<open>
  The conversion does raise: a header whose first number has 4301 digits, under the
  default limit of 4300.
\<close>

lemma too_long_4301: "too_long cpython (replicate 4301 49)"
  by (simp add: too_long_def cpython_def)

lemma split_nl_one: "10 \<notin> set s \<Longrightarrow> split_nl s = [s]"
  by (induction s) auto

lemma takeWhile_run:
  assumes "P x" and "r = [] \<or> \<not> P (hd r)"
  shows "takeWhile P (replicate n x @ r) = replicate n x"
    and "dropWhile P (replicate n x @ r) = r"
proof -
  have r: "takeWhile P r = []" "dropWhile P r = r" using assms(2) by (cases r; auto)+
  show "takeWhile P (replicate n x @ r) = replicate n x"
    using assms(1) r(1) by (induction n) simp_all
  show "dropWhile P (replicate n x @ r) = r"
    using assms(1) r(2) by (induction n) simp_all
qed

lemma is_digit_one: "is_digit py 49"
  by (simp add: is_digit_def digit_block_def)

lemma parse_patch_hunks_raises:
  assumes "too_long py (replicate n 49)"
  shows "parse_patch_hunks py (Some (lit ''@@ -'' @ replicate n 49 @ lit '' +1 @@''))
         = Inl ValueError"
proof -
  let ?line = "lit ''@@ -'' @ replicate n 49 @ lit '' +1 @@''"
  have n: "replicate n (49::int) \<noteq> []" using assms by (auto simp: too_long_def)
  have hd: "\<not> is_digit py (hd (lit '' +1 @@''))"
    using not_digit_space [of py] by (simp add: lit_def)
  have t: "takeWhile (is_digit py) (replicate n 49 @ lit '' +1 @@'') = replicate n 49"
    and d: "dropWhile (is_digit py) (replicate n 49 @ lit '' +1 @@'') = lit '' +1 @@''"
    using takeWhile_run [where P = "is_digit py" and x = 49 and r = "lit '' +1 @@''" and n = n]
      is_digit_one [of py] hd
    by simp_all
  have c: "\<not> startswith (lit '' +1 @@'') (lit '','')"
    by (simp add: startswith_def lit_def)
  have l1: "lax_range py (replicate n 49 @ lit '' +1 @@'')
            = Some ((replicate n 49, []), lit '' +1 @@'')"
    unfolding lax_range_def Let_def t d using n c by simp
  have d2: "drop 2 (lit '' +1 @@'') = 49 # lit '' @@''" by (simp add: lit_def)
  have hd2: "\<not> is_digit py (hd (lit '' @@''))"
    using not_digit_space [of py] by (simp add: lit_def)
  have t2: "takeWhile (is_digit py) (49 # lit '' @@'') = [49]"
    and dd2: "dropWhile (is_digit py) (49 # lit '' @@'') = lit '' @@''"
    using takeWhile_run [where P = "is_digit py" and x = 49 and r = "lit '' @@''" and n = 1]
      is_digit_one [of py] hd2
    by simp_all
  have c2: "\<not> startswith (lit '' @@'') (lit '','')"
    by (simp add: startswith_def lit_def)
  have l2: "lax_range py (drop 2 (lit '' +1 @@'')) = Some (([49], []), lit '' @@'')"
    unfolding lax_range_def d2 Let_def t2 dd2 using c2 by simp
  have s4: "startswith ?line (lit ''@@ -'')" "drop 4 ?line = replicate n 49 @ lit '' +1 @@''"
    by (simp_all add: startswith_def length_lit)
  have p: "startswith (lit '' +1 @@'') (lit '' +'')" "startswith (lit '' @@'') (lit '' @@'')"
    by (simp_all add: startswith_def lit_def)
  have h: "lax_header_at py ?line = Some (replicate n 49, [])"
    using s4 l1 l2 p by (simp add: lax_header_at_def)
  then have f: "lax_search py ?line = Some (replicate n 49, [])" by simp
  have s2: "startswith ?line (lit ''@@'')" by (simp add: startswith_def lit_def)
  have r: "line_raises py ?line"
    using s2 f assms by (simp add: line_raises_def header_raises_def del: lax_search.simps)
  have "(10::int) \<notin> set ?line" by (simp add: lit_def)
  then have "split_nl ?line = [?line]" by (rule split_nl_one)
  then show ?thesis using r by (simp add: parse_patch_hunks_Some del: lax_search.simps)
qed

text \<open>
  Digits beyond ASCII count: a header written with Arabic-Indic digits, \<open>3\<close> and \<open>2\<close> at
  the code points 1635 and 1634, gives the hunk \<open>(3, 5)\<close>.
\<close>

lemma parse_patch_hunks_unicode_digits:
  "parse_patch_hunks cpython
     (Some (lit ''@@ -'' @ [1635, 44, 1634] @ lit '' +'' @ [1635, 44, 1634] @ lit '' @@''))
   = Inr [(3, 5)]"
  by code_simp

text \<open>
  C2 as the spec states it fails. The line \<^verbatim>\<open>@@ -5, +3 @@\<close> does not match the range
  syntax (its comma is followed by no count), so it should contribute nothing; the code's
  pattern makes the comma and the count optional independently and returns the hunk
  \<open>(5, 6)\<close>.
\<close>

theorem parse_patch_hunks_syntax_counterexample:
  "spec_header_line cpython (lit ''@@ -5, +3 @@'') = None
   \<and> parse_patch_hunks cpython (Some (lit ''@@ -5, +3 @@'')) = Inr [(5, 6)]"
  by code_simp

text \<open>
  C2, as the code has it. An absent or empty patch gives no hunks and no error. For any
  other text the parser raises \<^verbatim>\<open>ValueError\<close> when some line makes it raise: a line that
  begins with \<^verbatim>\<open>@@\<close> and contains the pattern
  \<^verbatim>\<open>@@ -digits[,][digits] +digits[,][digits] @@\<close>, where a number of the old range, at
  the leftmost occurrence, has more digits than \<^verbatim>\<open>int\<close> accepts. Otherwise the result is,
  line by line and in line order, what each line contributes, and a line contributes at
  most one hunk: a line that begins with \<^verbatim>\<open>@@\<close> and contains the pattern contributes the
  hunk of its leftmost occurrence, \<open>(oldStart, oldStart + oldCount)\<close> with
  \<open>oldCount = 1\<close> when the second group is empty; every other line contributes nothing
  and parsing goes on. A digit is any character with a decimal value in the
  interpreter's Unicode database. In particular a line of the spec's range syntax
  contributes exactly its hunk, and makes the parser raise exactly when its \<open>oldStart\<close>
  or its \<open>oldCount\<close> is too long.
\<close>

theorem parse_patch_hunks_lines:
  "parse_patch_hunks py None = Inr []
   \<and> parse_patch_hunks py (Some []) = Inr []
   \<and> parse_patch_hunks py (Some p) =
       (if list_ex (line_raises py) (split_nl p) then Inl ValueError
        else Inr (concat (map (lax_line_hunks py) (split_nl p))))
   \<and> length (lax_line_hunks py line) \<le> 1
   \<and> (spec_header_line py line = Some old \<longrightarrow>
        lax_line_hunks py line = [spec_hunk py old]
        \<and> line_raises py line = spec_raises py old)"
proof (intro conjI impI)
  show "parse_patch_hunks py None = Inr []" by (simp add: parse_patch_hunks_def)
  show "parse_patch_hunks py (Some []) = Inr []" by (simp add: parse_patch_hunks_def)
  show "parse_patch_hunks py (Some p) =
       (if list_ex (line_raises py) (split_nl p) then Inl ValueError
        else Inr (concat (map (lax_line_hunks py) (split_nl p))))"
    by (rule parse_patch_hunks_Some)
  show "length (lax_line_hunks py line) \<le> 1" by (rule lax_line_hunks_length)
  show "lax_line_hunks py line = [spec_hunk py old]" if "spec_header_line py line = Some old"
    using that by (rule spec_header_line_hunks(1))
  show "line_raises py line = spec_raises py old" if "spec_header_line py line = Some old"
    using that by (rule spec_header_line_hunks(2))
qed

theorem parse_patch_hunks_lines_witness:
  "spec_header_line cpython (lit ''@@ -10,2 +10,3 @@ def f():'') = Some (lit ''10'', Some (lit ''2''))
   \<and> lax_line_hunks cpython (lit ''@@ -10,2 +10,3 @@ def f():'')
       = [spec_hunk cpython (lit ''10'', Some (lit ''2''))]
   \<and> line_raises cpython (lit ''@@ -10,2 +10,3 @@ def f():'')
       = spec_raises cpython (lit ''10'', Some (lit ''2''))
   \<and> spec_hunk cpython (lit ''10'', Some (lit ''2'')) = (10, 12)
   \<and> \<not> spec_raises cpython (lit ''10'', Some (lit ''2''))
   \<and> parse_patch_hunks cpython (Some (lit ''@@ -10,2 +10,3 @@ def f():'')) = Inr [(10, 12)]"
proof -
  let ?line = "lit ''@@ -10,2 +10,3 @@ def f():''"
  let ?old = "(lit ''10'', Some (lit ''2''))"
  have h: "spec_header_line cpython ?line = Some ?old"
    by code_simp
  have "spec_header_line cpython ?line = Some ?old
        \<longrightarrow> lax_line_hunks cpython ?line = [spec_hunk cpython ?old]
            \<and> line_raises cpython ?line = spec_raises cpython ?old"
    using parse_patch_hunks_lines [of cpython "[]" ?line ?old]
    by (elim conjE)
  then have l: "lax_line_hunks cpython ?line = [spec_hunk cpython ?old]
                \<and> line_raises cpython ?line = spec_raises cpython ?old"
    using h by (rule mp)
  have v: "spec_hunk cpython ?old = (10, 12)" by code_simp
  have n: "\<not> spec_raises cpython ?old" by code_simp
  have p: "parse_patch_hunks cpython (Some ?line) = Inr [(10, 12)]" by code_simp
  show ?thesis using h l v n p by (intro conjI) simp_all
qed

text \<open>
  C7 as the spec states it fails: the patch of an added file, a valid unified diff, has
  the header \<^verbatim>\<open>@@ -0,0 +1,3 @@\<close>, and the hunk parsed from it is \<open>(0, 0)\<close>.
\<close>

theorem parse_patch_hunks_bounds_counterexample:
  "parse_patch_hunks cpython (Some (lit ''@@ -0,0 +1,3 @@\<newline>+a\<newline>+b\<newline>+c'')) = Inr [(0, 0)]
   \<and> \<not> (\<exists>hunks. parse_patch_hunks cpython (Some (lit ''@@ -0,0 +1,3 @@\<newline>+a\<newline>+b\<newline>+c''))
                   = Inr hunks
                 \<and> list_all (\<lambda>h. 1 \<le> fst h \<and> fst h < snd h) hunks)"
proof -
  have "parse_patch_hunks cpython (Some (lit ''@@ -0,0 +1,3 @@\<newline>+a\<newline>+b\<newline>+c'')) = Inr [(0, 0)]"
    by code_simp
  then show ?thesis by simp
qed

text \<open>
  C7, as the code has it: every hunk \<open>(start, end)\<close> that \<open>parse_patch_hunks\<close> returns,
  for any text, satisfies \<open>start \<ge> 0\<close> and \<open>end \<ge> start\<close>.
\<close>

theorem parse_patch_hunks_bounds:
  "parse_patch_hunks py p = Inr hunks \<Longrightarrow> \<forall>h \<in> set hunks. 0 \<le> fst h \<and> fst h \<le> snd h"
  using parse_patch_hunks_wf by blast

theorem parse_patch_hunks_bounds_witness:
  "parse_patch_hunks cpython (Some (lit ''@@ -10,2 +10,3 @@\<newline> x\<newline>@@ -20 +21 @@''))
     = Inr [(10, 12), (20, 21)]
   \<and> list_all (\<lambda>h. 0 \<le> fst h \<and> fst h \<le> snd h) ([(10, 12), (20, 21)] :: hunk list)"
proof -
  have v: "parse_patch_hunks cpython (Some (lit ''@@ -10,2 +10,3 @@\<newline> x\<newline>@@ -20 +21 @@''))
             = Inr [(10, 12), (20, 21)]"
    by code_simp
  have "list_all (\<lambda>h. 0 \<le> fst h \<and> fst h \<le> snd h) ([(10, 12), (20, 21)] :: hunk list)"
    using parse_patch_hunks_bounds [OF v] by (simp only: list_all_iff)
  with v show ?thesis by (intro conjI)
qed

section \<open>Properties of the region materializer\<close>

lemma merge_run_wf:
  "fst cur \<le> snd cur \<Longrightarrow> \<forall>h \<in> set hs. fst h \<le> snd h \<Longrightarrow>
   \<forall>r \<in> set (merge_run cur g hs). fst r \<le> snd r"
proof (induction hs arbitrary: cur)
  case Nil
  then show ?case by simp
next
  case (Cons h hs)
  have 1: "fst (fst cur, max (snd cur) (snd h)) \<le> snd (fst cur, max (snd cur) (snd h))"
    using Cons.prems(1) by simp
  have 2: "\<forall>h \<in> set hs. fst h \<le> snd h" and 3: "fst h \<le> snd h" using Cons.prems(2) by simp_all
  show ?case using Cons.IH [OF 1 2] Cons.IH [OF 3 2] Cons.prems(1) by simp
qed

lemma merge_close_hunks_wf:
  assumes "\<forall>h \<in> set hunks. fst h \<le> snd h" and "r \<in> set (merge_close_hunks hunks g)"
  shows "fst r \<le> snd r"
proof -
  have ne: "hunks \<noteq> []" using assms(2) by (auto simp: merge_close_hunks_Nil)
  let ?s = "sort_key fst hunks"
  have "\<forall>h \<in> set (hd ?s # tl ?s). fst h \<le> snd h"
    using assms(1) by (simp only: set_hd_tl [OF ne])
  then have "\<forall>r \<in> set (merge_run (hd ?s) g (tl ?s)). fst r \<le> snd r"
    by (intro merge_run_wf) simp_all
  then show ?thesis using assms(2) ne by (simp add: merge_close_hunks_run)
qed

text \<open>A region merged from parsed hunks: \<open>0 \<le> start \<le> end\<close>.\<close>

lemma merged_parsed_wf:
  assumes "parse_patch_hunks py p = Inr hunks" and "r \<in> set (merge_close_hunks hunks g)"
  shows "0 \<le> fst r \<and> fst r \<le> snd r"
proof -
  have wf: "\<forall>h \<in> set hunks. fst h \<le> snd h"
    using parse_patch_hunks_wf [OF assms(1)] by blast
  from merge_close_hunks_starts [OF assms(2)] obtain h where
    "h \<in> set hunks" "fst r = fst h" by auto
  then have "0 \<le> fst r" using parse_patch_hunks_wf [OF assms(1), of h] by simp
  then show ?thesis using merge_close_hunks_wf [OF wf assms(2)] by simp
qed

lemma chunk_loop_length:
  "length (chunk_loop acc r cb ca bl al n idx hs) = length acc + length hs"
  by (induction hs arbitrary: acc idx) simp_all

lemma chunk_loop_nth_acc:
  "k < length acc \<Longrightarrow> chunk_loop acc r cb ca bl al n idx hs ! k = acc ! k"
  by (induction hs arbitrary: acc idx) (simp_all add: nth_append)

lemma chunk_loop_nth:
  "i < length hs \<Longrightarrow>
   chunk_loop acc r cb ca bl al n idx hs ! (length acc + i)
     = make_chunk r cb ca bl al n (idx + int i) (hs ! i)"
proof (induction hs arbitrary: acc idx i)
  case Nil
  then show ?case by simp
next
  case (Cons h hs)
  show ?case
  proof (cases i)
    case 0
    then show ?thesis
      using chunk_loop_nth_acc [of "length acc" "acc @ [make_chunk r cb ca bl al n idx h]"]
      by simp
  next
    case (Suc j)
    then have "j < length hs" using Cons.prems by simp
    from Cons.IH [OF this, of "acc @ [make_chunk r cb ca bl al n idx h]" "idx + 1"]
    show ?thesis using Suc by (simp add: add.assoc)
  qed
qed

lemma split_nl_not_Nil: "split_nl s \<noteq> []"
  by (induction s) (auto split: list.splits)

text \<open>The marking loop, case by case.\<close>

lemma mark_loop_none:
  "(rs < i \<or> i + int (length rest) \<le> rs) \<Longrightarrow> (re < i \<or> i + int (length rest) \<le> re) \<Longrightarrow>
   mark_loop acc rs re i rest = acc @ rest"
proof (induction rest arbitrary: acc i)
  case Nil
  show ?case by simp
next
  case (Cons l rest)
  have "rs \<noteq> i" "re \<noteq> i" using Cons.prems by auto
  moreover have "mark_loop (acc @ [l]) rs re (i + 1) rest = (acc @ [l]) @ rest"
    using Cons.prems by (intro Cons.IH) auto
  ultimately show ?case by simp
qed

lemma mark_loop_end:
  "(rs < i \<or> i + int (length rest) \<le> rs) \<Longrightarrow> i \<le> re \<Longrightarrow> re < i + int (length rest) \<Longrightarrow>
   mark_loop acc rs re i rest
     = acc @ take (nat (re - i + 1)) rest @ [marker_end] @ drop (nat (re - i + 1)) rest"
proof (induction rest arbitrary: acc i)
  case Nil
  then show ?case by simp
next
  case (Cons l rest)
  have ns: "rs \<noteq> i" using Cons.prems by auto
  show ?case
  proof (cases "re = i")
    case True
    have "mark_loop (acc @ [l, marker_end]) rs re (i + 1) rest = (acc @ [l, marker_end]) @ rest"
      using Cons.prems True by (intro mark_loop_none) auto
    then show ?thesis using ns True by simp
  next
    case False
    have "mark_loop (acc @ [l]) rs re (i + 1) rest
        = (acc @ [l]) @ take (nat (re - (i + 1) + 1)) rest @ [marker_end]
            @ drop (nat (re - (i + 1) + 1)) rest"
      using Cons.prems False by (intro Cons.IH) auto
    moreover have "nat (re - i + 1) = Suc (nat (re - (i + 1) + 1))"
      using Cons.prems False by simp
    ultimately show ?thesis using ns False by simp
  qed
qed

lemma mark_loop_start:
  "i \<le> rs \<Longrightarrow> rs < i + int (length rest) \<Longrightarrow> (re < i \<or> i + int (length rest) \<le> re) \<Longrightarrow>
   mark_loop acc rs re i rest
     = acc @ take (nat (rs - i)) rest @ [marker_start] @ drop (nat (rs - i)) rest"
proof (induction rest arbitrary: acc i)
  case Nil
  then show ?case by simp
next
  case (Cons l rest)
  have ne: "re \<noteq> i" using Cons.prems by auto
  show ?case
  proof (cases "rs = i")
    case True
    have "mark_loop (acc @ [marker_start, l]) rs re (i + 1) rest
            = (acc @ [marker_start, l]) @ rest"
      using Cons.prems True by (intro mark_loop_none) auto
    then show ?thesis using ne True by simp
  next
    case False
    have "mark_loop (acc @ [l]) rs re (i + 1) rest
        = (acc @ [l]) @ take (nat (rs - (i + 1))) rest @ [marker_start]
            @ drop (nat (rs - (i + 1))) rest"
      using Cons.prems False by (intro Cons.IH) auto
    moreover have "nat (rs - i) = Suc (nat (rs - (i + 1)))"
      using Cons.prems False by simp
    ultimately show ?thesis using ne False by simp
  qed
qed

lemma mark_loop_both:
  "i \<le> rs \<Longrightarrow> rs \<le> re \<Longrightarrow> re < i + int (length rest) \<Longrightarrow>
   mark_loop acc rs re i rest
     = acc @ take (nat (rs - i)) rest @ [marker_start]
         @ take (nat (re - rs + 1)) (drop (nat (rs - i)) rest) @ [marker_end]
         @ drop (nat (re - i + 1)) rest"
proof (induction rest arbitrary: acc i)
  case Nil
  then show ?case by simp
next
  case (Cons l rest)
  show ?case
  proof (cases "rs = i")
    case False
    then have ne: "re \<noteq> i" using Cons.prems by auto
    have "mark_loop (acc @ [l]) rs re (i + 1) rest
        = (acc @ [l]) @ take (nat (rs - (i + 1))) rest @ [marker_start]
            @ take (nat (re - rs + 1)) (drop (nat (rs - (i + 1))) rest) @ [marker_end]
            @ drop (nat (re - (i + 1) + 1)) rest"
      using Cons.prems False by (intro Cons.IH) auto
    moreover have "nat (rs - i) = Suc (nat (rs - (i + 1)))"
      and "nat (re - i + 1) = Suc (nat (re - (i + 1) + 1))"
      using Cons.prems False by simp_all
    ultimately show ?thesis using ne False by simp
  next
    case True
    show ?thesis
    proof (cases "re = i")
      case e: True
      have "mark_loop (acc @ [marker_start, l, marker_end]) rs re (i + 1) rest
              = (acc @ [marker_start, l, marker_end]) @ rest"
        using Cons.prems True e by (intro mark_loop_none) auto
      then show ?thesis using True e by simp
    next
      case e: False
      have "mark_loop (acc @ [marker_start, l]) rs re (i + 1) rest
          = (acc @ [marker_start, l]) @ take (nat (re - (i + 1) + 1)) rest @ [marker_end]
              @ drop (nat (re - (i + 1) + 1)) rest"
        using Cons.prems True e by (intro mark_loop_end) auto
      moreover have "nat (re - i + 1) = Suc (nat (re - (i + 1) + 1))"
        using Cons.prems True e by simp
      ultimately show ?thesis using True e by simp
    qed
  qed
qed

lemma py_slice_lines:
  assumes "1 \<le> rs" "rs \<le> int (length xs)" "0 \<le> re" "re \<le> int (length xs)"
  shows "py_slice xs (rs - 1) re = map (\<lambda>k. xs ! nat (k - 1)) [rs..re]"
proof -
  have s: "py_slice xs (rs - 1) re = take (nat (re - (rs - 1))) (drop (nat (rs - 1)) xs)"
    using assms by (simp add: py_slice_def Let_def min_def)
  show ?thesis
  proof (rule nth_equalityI)
    show "length (py_slice xs (rs - 1) re) = length (map (\<lambda>k. xs ! nat (k - 1)) [rs..re])"
      using assms by (simp add: s)
  next
    fix k assume "k < length (py_slice xs (rs - 1) re)"
    then have k: "int k < re - (rs - 1)" "nat (rs - 1) + k < length xs"
      using assms by (simp_all add: s)
    have "py_slice xs (rs - 1) re ! k = xs ! (nat (rs - 1) + k)"
      using k assms by (simp add: s)
    moreover have "[rs..re] ! k = rs + int k" using k by (intro nth_upto) simp
    moreover have "nat (rs + int k - 1) = nat (rs - 1) + k" using assms by simp
    moreover have "k < length [rs..re]" using k by simp
    ultimately show "py_slice xs (rs - 1) re ! k = map (\<lambda>k. xs ! nat (k - 1)) [rs..re] ! k"
      by simp
  qed
qed

text \<open>The three ways the function ends.\<close>

lemma markers_not_chunkable:
  "\<not> py_truthy (patch r) \<or> \<not> py_truthy (before_content r)
     \<or> parse_patch_hunks py (patch r) = Inr []
   \<Longrightarrow> add_editable_region_markers py r cb ca g = Inr [not_chunkable r]"
  by (auto simp: add_editable_region_markers_def Let_def)

lemma markers_raises:
  "(add_editable_region_markers py r cb ca g = Inl e)
   = (py_truthy (patch r) \<and> py_truthy (before_content r)
      \<and> parse_patch_hunks py (patch r) = Inl e)"
  by (auto simp: add_editable_region_markers_def Let_def split: sum.splits)

lemma markers_chunkable:
  assumes "patch r = Some p" "p \<noteq> []" "before_content r = Some b" "b \<noteq> []"
    and "parse_patch_hunks py (Some p) = Inr hunks" "hunks \<noteq> []"
  shows "add_editable_region_markers py r cb ca g
    = Inr (chunk_loop [] r cb ca (split_nl b) (lines_after r b)
             (length (merge_close_hunks hunks g)) 0 (merge_close_hunks hunks g))"
  using assms
  by (cases "after_content r")
     (simp_all add: add_editable_region_markers_def Let_def py_truthy_def)

lemma markers_chunk_at:
  assumes "patch r = Some p" "p \<noteq> []" "before_content r = Some b" "b \<noteq> []"
    and h: "parse_patch_hunks py (Some p) = Inr hunks"
    and i: "i < length (merge_close_hunks hunks g)"
  shows "\<exists>out. add_editable_region_markers py r cb ca g = Inr out
    \<and> length out = length (merge_close_hunks hunks g)
    \<and> out ! i = make_chunk r cb ca (split_nl b) (lines_after r b)
                  (length (merge_close_hunks hunks g)) (int i) (merge_close_hunks hunks g ! i)"
proof -
  have ne: "hunks \<noteq> []" using i by (auto simp: merge_close_hunks_Nil)
  let ?out = "chunk_loop [] r cb ca (split_nl b) (lines_after r b)
                (length (merge_close_hunks hunks g)) 0 (merge_close_hunks hunks g)"
  have c: "add_editable_region_markers py r cb ca g = Inr ?out"
    by (rule markers_chunkable [OF assms(1-4) h ne])
  have l: "length ?out = length (merge_close_hunks hunks g)"
    by (simp add: chunk_loop_length)
  have n: "?out ! i = make_chunk r cb ca (split_nl b) (lines_after r b)
                  (length (merge_close_hunks hunks g)) (int i) (merge_close_hunks hunks g ! i)"
    using chunk_loop_nth [OF i, of "[]" r cb ca _ _ _ 0] by simp
  show ?thesis using c l n by blast
qed

lemma make_chunk_fields:
  "chunk_id (make_chunk r cb ca bl al n idx h) = Some idx"
  "total_chunks_in_file (make_chunk r cb ca bl al n idx h) = Some (int n)"
  "editable_region_start (make_chunk r cb ca bl al n idx h) = Some (max 1 (fst h - cb))"
  "editable_region_end (make_chunk r cb ca bl al n idx h)
     = Some (min (int (length bl)) (snd h + ca))"
  "model_input_text (make_chunk r cb ca bl al n idx h)
     = Some (join_nl (mark_loop [] (max 1 (fst h - cb)) (min (int (length bl)) (snd h + ca)) 1 bl))"
  "model_target_text (make_chunk r cb ca bl al n idx h)
     = (if max 1 (fst h - cb) \<le> int (length al) \<and> min (int (length bl)) (snd h + ca) \<le> int (length al)
        then Some (join_nl (py_slice al (max 1 (fst h - cb) - 1) (min (int (length bl)) (snd h + ca))))
        else None)"
  by (simp_all add: make_chunk_def Let_def)

lemma not_chunkable_fields:
  "chunk_id (not_chunkable r) = Some 0"
  "total_chunks_in_file (not_chunkable r) = Some 1"
  "model_input_text (not_chunkable r) = None"
  "model_target_text (not_chunkable r) = None"
  "editable_region_start (not_chunkable r) = editable_region_start r"
  "editable_region_end (not_chunkable r) = editable_region_end r"
  by (simp_all add: not_chunkable_def)

text \<open>
  C3 as the spec states it fails. The patch of a binary file is not empty and has no
  hunk header; with a non-empty before-content the function takes its second early
  return, and the one chunk it produces has no region bounds at all.
\<close>

theorem region_bounds_counterexample:
  "py_truthy (patch binary_file) \<and> py_truthy (before_content binary_file)
   \<and> add_editable_region_markers cpython binary_file 1 5 10 = Inr [not_chunkable binary_file]
   \<and> editable_region_start (not_chunkable binary_file) = None
   \<and> editable_region_end (not_chunkable binary_file) = None"
proof -
  have "py_truthy (patch binary_file)" "py_truthy (before_content binary_file)"
    by (simp_all add: binary_file_def py_truthy_def lit_def)
  moreover have "parse_patch_hunks cpython (patch binary_file) = Inr []" by code_simp
  then have "add_editable_region_markers cpython binary_file 1 5 10
               = Inr [not_chunkable binary_file]"
    by (intro markers_not_chunkable) simp
  moreover have "editable_region_start (not_chunkable binary_file) = None"
    "editable_region_end (not_chunkable binary_file) = None"
    by (simp_all add: not_chunkable_def binary_file_def)
  ultimately show ?thesis by (intro conjI)
qed

text \<open>
  C3, as the code has it. For a record with a non-empty patch that has at least one hunk
  header, and non-empty before-content of \<open>L\<close> lines, the function returns one chunk per
  merged region, and the chunk of the region \<open>[hunk_start, hunk_end)\<close> has
  \<open>region_start = max 1 (hunk_start - context_before)\<close> and
  \<open>region_end = min L (hunk_end + context_after)\<close>; so \<open>region_start \<ge> 1\<close> and
  \<open>region_end \<le> L\<close>. This holds for all contexts, in particular the non-negative ones.
\<close>

theorem region_bounds:
  assumes "patch r = Some p" "p \<noteq> []" "before_content r = Some b" "b \<noteq> []"
    and "parse_patch_hunks py (Some p) = Inr hunks"
    and "i < length (merge_close_hunks hunks g)"
  shows "\<exists>out. add_editable_region_markers py r cb ca g = Inr out
    \<and> length out = length (merge_close_hunks hunks g)
    \<and> editable_region_start (out ! i)
        = Some (max 1 (fst (merge_close_hunks hunks g ! i) - cb))
    \<and> editable_region_end (out ! i)
        = Some (min (int (length (split_nl b))) (snd (merge_close_hunks hunks g ! i) + ca))
    \<and> 1 \<le> the (editable_region_start (out ! i))
    \<and> the (editable_region_end (out ! i)) \<le> int (length (split_nl b))"
proof -
  from markers_chunk_at [OF assms, of cb ca] obtain out where
    o: "add_editable_region_markers py r cb ca g = Inr out"
    and l: "length out = length (merge_close_hunks hunks g)"
    and c: "out ! i = make_chunk r cb ca (split_nl b) (lines_after r b)
                  (length (merge_close_hunks hunks g)) (int i) (merge_close_hunks hunks g ! i)"
    by blast
  show ?thesis
    by (rule exI [of _ out]) (simp add: o l c make_chunk_fields)
qed

theorem region_bounds_witness:
  "patch shrunk_file = Some (lit ''@@ -10,2 +10,0 @@\<newline>-j\<newline>-k'')
   \<and> parse_patch_hunks cpython (Some (lit ''@@ -10,2 +10,0 @@\<newline>-j\<newline>-k'')) = Inr [(10, 12)]
   \<and> merge_close_hunks [(10, 12)] 10 = [(10, 12)]
   \<and> (\<exists>out. add_editable_region_markers cpython shrunk_file 1 5 10 = Inr out
         \<and> length out = 1
         \<and> editable_region_start (out ! 0) = Some 9
         \<and> editable_region_end (out ! 0) = Some 17)"
proof -
  let ?p = "lit ''@@ -10,2 +10,0 @@\<newline>-j\<newline>-k''"
  let ?b = "lit ''a\<newline>b\<newline>c\<newline>d\<newline>e\<newline>f\<newline>g\<newline>h\<newline>i\<newline>j\<newline>k\<newline>l\<newline>m\<newline>n\<newline>o\<newline>p\<newline>q\<newline>r\<newline>s\<newline>t''"
  have p: "patch shrunk_file = Some ?p" and b: "before_content shrunk_file = Some ?b"
    by (simp_all add: shrunk_file_def)
  have h: "parse_patch_hunks cpython (Some ?p) = Inr [(10, 12)]" by code_simp
  have m: "merge_close_hunks [(10, 12)] 10 = [(10, 12)]" by (simp add: merge_close_hunks_def)
  have l: "length (split_nl ?b) = 20" by code_simp
  have i: "0 < length (merge_close_hunks [(10, 12)] 10)" by (simp only: m) simp
  have pn: "?p \<noteq> []" and bn: "?b \<noteq> []" by (simp_all add: lit_def)
  from region_bounds [OF p pn b bn h i, of 1 5]
  have "\<exists>out. add_editable_region_markers cpython shrunk_file 1 5 10 = Inr out
         \<and> length out = 1
         \<and> editable_region_start (out ! 0) = Some 9
         \<and> editable_region_end (out ! 0) = Some 17"
    by (auto simp: m l)
  with p h m show ?thesis by (intro conjI)
qed

text \<open>
  C4 as the spec states it fails. For a file the commit empties, the after-content is
  the empty string, which has one line; the region is lines 1 to 3, so the target should
  be absent. The code takes the before-lines for the after-lines when the after-content
  is empty or absent, and returns the three before-lines as the target.
\<close>

theorem target_text_counterexample:
  "after_content emptied_file = Some []
   \<and> int (length (split_nl [])) = 1
   \<and> (\<exists>out. add_editable_region_markers cpython emptied_file 1 5 10 = Inr out
         \<and> editable_region_start (out ! 0) = Some 1
         \<and> editable_region_end (out ! 0) = Some 3
         \<and> model_target_text (out ! 0) = Some (lit ''a\<newline>b\<newline>c''))"
proof -
  have "after_content emptied_file = Some []" by (simp add: emptied_file_def)
  moreover have "int (length (split_nl [])) = 1" by simp
  moreover have "case add_editable_region_markers cpython emptied_file 1 5 10 of
      Inl e \<Rightarrow> False
    | Inr out \<Rightarrow> editable_region_start (out ! 0) = Some 1
         \<and> editable_region_end (out ! 0) = Some 3
         \<and> model_target_text (out ! 0) = Some (lit ''a\<newline>b\<newline>c'')"
    by code_simp
  then have "\<exists>out. add_editable_region_markers cpython emptied_file 1 5 10 = Inr out
         \<and> editable_region_start (out ! 0) = Some 1
         \<and> editable_region_end (out ! 0) = Some 3
         \<and> model_target_text (out ! 0) = Some (lit ''a\<newline>b\<newline>c'')"
    by (cases "add_editable_region_markers cpython emptied_file 1 5 10") simp_all
  ultimately show ?thesis by (intro conjI)
qed

text \<open>
  C4, as the code has it. For every chunk produced from a record with a non-empty patch
  and non-empty before-content, and a non-negative \<open>context_after\<close>: with the after-lines
  being the lines of the after-content, or the before-lines when the after-content is
  absent or empty, the target text is present if and only if \<open>region_start\<close> and
  \<open>region_end\<close> are both at most the number of after-lines; when present it is the
  after-lines at the indices \<open>region_start\<close> to \<open>region_end\<close> inclusive, joined with
  newlines, and otherwise it is \<open>None\<close>. The witness is the spec's example: 20
  before-lines, 10 after-lines and \<open>region_end = 15\<close> give no target.
\<close>

theorem target_text_present:
  assumes "patch r = Some p" "p \<noteq> []" "before_content r = Some b" "b \<noteq> []"
    and h: "parse_patch_hunks py (Some p) = Inr hunks"
    and i: "i < length (merge_close_hunks hunks g)" and ca: "0 \<le> ca"
  shows "\<exists>out. add_editable_region_markers py r cb ca g = Inr out
    \<and> model_target_text (out ! i)
    = (if max 1 (fst (merge_close_hunks hunks g ! i) - cb) \<le> int (length (lines_after r b))
          \<and> min (int (length (split_nl b))) (snd (merge_close_hunks hunks g ! i) + ca)
              \<le> int (length (lines_after r b))
       then Some (join_nl (map (\<lambda>k. lines_after r b ! nat (k - 1))
              [max 1 (fst (merge_close_hunks hunks g ! i) - cb) ..
               min (int (length (split_nl b))) (snd (merge_close_hunks hunks g ! i) + ca)]))
       else None)"
proof -
  let ?m = "merge_close_hunks hunks g ! i"
  let ?rs = "max 1 (fst ?m - cb)" and ?re = "min (int (length (split_nl b))) (snd ?m + ca)"
  let ?al = "lines_after r b"
  have "?m \<in> set (merge_close_hunks hunks g)" using i by simp
  from merged_parsed_wf [OF h this] have "0 \<le> snd ?m" by simp
  then have re0: "0 \<le> ?re" using ca by simp
  from markers_chunk_at [OF assms(1-4) h i, of cb ca] obtain out where
    o: "add_editable_region_markers py r cb ca g = Inr out"
    and c: "out ! i = make_chunk r cb ca (split_nl b) ?al
                  (length (merge_close_hunks hunks g)) (int i) ?m"
    by blast
  have t: "model_target_text (out ! i)
      = (if ?rs \<le> int (length ?al) \<and> ?re \<le> int (length ?al)
         then Some (join_nl (py_slice ?al (?rs - 1) ?re)) else None)"
    unfolding c by (simp only: make_chunk_fields)
  have "model_target_text (out ! i)
    = (if ?rs \<le> int (length ?al) \<and> ?re \<le> int (length ?al)
       then Some (join_nl (map (\<lambda>k. ?al ! nat (k - 1)) [?rs..?re])) else None)"
  proof (cases "?rs \<le> int (length ?al) \<and> ?re \<le> int (length ?al)")
    case False
    show ?thesis unfolding t by (simp only: False if_False)
  next
    case True
    have s: "py_slice ?al (?rs - 1) ?re = map (\<lambda>k. ?al ! nat (k - 1)) [?rs..?re]"
      using True re0 by (intro py_slice_lines) simp_all
    show ?thesis unfolding t by (simp only: True if_True s)
  qed
  with o show ?thesis by blast
qed

theorem target_text_present_witness:
  "(0::int) \<le> 3
   \<and> length (split_nl (lit ''a\<newline>b\<newline>c\<newline>d\<newline>e\<newline>f\<newline>g\<newline>h\<newline>i\<newline>l'')) = 10
   \<and> (\<exists>out. add_editable_region_markers cpython shrunk_file 1 3 10 = Inr out
         \<and> editable_region_end (out ! 0) = Some 15
         \<and> model_target_text (out ! 0) = None)"
proof -
  let ?p = "lit ''@@ -10,2 +10,0 @@\<newline>-j\<newline>-k''"
  let ?b = "lit ''a\<newline>b\<newline>c\<newline>d\<newline>e\<newline>f\<newline>g\<newline>h\<newline>i\<newline>j\<newline>k\<newline>l\<newline>m\<newline>n\<newline>o\<newline>p\<newline>q\<newline>r\<newline>s\<newline>t''"
  let ?a = "lit ''a\<newline>b\<newline>c\<newline>d\<newline>e\<newline>f\<newline>g\<newline>h\<newline>i\<newline>l''"
  have p: "patch shrunk_file = Some ?p" and b: "before_content shrunk_file = Some ?b"
    and a: "after_content shrunk_file = Some ?a"
    by (simp_all add: shrunk_file_def)
  have h: "parse_patch_hunks cpython (Some ?p) = Inr [(10, 12)]" by code_simp
  have m: "merge_close_hunks [(10, 12)] 10 = [(10, 12)]" by (simp add: merge_close_hunks_def)
  have l: "length (split_nl ?b) = 20" by code_simp
  have la: "length (split_nl ?a) = 10" by code_simp
  have an: "?a \<noteq> []" by (simp add: lit_def)
  have i: "0 < length (merge_close_hunks [(10, 12)] 10)" by (simp only: m) simp
  have c: "(0::int) \<le> 3" by simp
  have e: "case add_editable_region_markers cpython shrunk_file 1 3 10 of
      Inl e \<Rightarrow> False | Inr out \<Rightarrow> editable_region_end (out ! 0) = Some 15"
    by code_simp
  have pn: "?p \<noteq> []" and bn: "?b \<noteq> []" by (simp_all add: lit_def)
  from target_text_present [OF p pn b bn h i c, of 1]
  obtain out where o: "add_editable_region_markers cpython shrunk_file 1 3 10 = Inr out"
    and t: "model_target_text (out ! 0) = None"
    by (auto simp: m l la a an)
  have "editable_region_end (out ! 0) = Some 15" using e by (simp add: o)
  with o t have "\<exists>out. add_editable_region_markers cpython shrunk_file 1 3 10 = Inr out
         \<and> editable_region_end (out ! 0) = Some 15
         \<and> model_target_text (out ! 0) = None"
    by blast
  with c la show ?thesis by (intro conjI)
qed

text \<open>
  C5 as the spec states it fails: for a deleted file the after-content is absent, and the
  code still returns a chunk with an input text and a target text, since its early return
  tests the patch and the before-content only.
\<close>

theorem chunk_counts_counterexample:
  "after_content removed_file = None
   \<and> (\<exists>out. add_editable_region_markers cpython removed_file 1 5 10 = Inr out
         \<and> model_input_text (out ! 0)
             = Some (lit ''<|editable_region_start|>\<newline>a\<newline>b\<newline>c\<newline><|editable_region_end|>'')
         \<and> model_target_text (out ! 0) = Some (lit ''a\<newline>b\<newline>c''))"
proof -
  have "after_content removed_file = None" by (simp add: removed_file_def)
  moreover have "case add_editable_region_markers cpython removed_file 1 5 10 of
      Inl e \<Rightarrow> False
    | Inr out \<Rightarrow> model_input_text (out ! 0)
             = Some (lit ''<|editable_region_start|>\<newline>a\<newline>b\<newline>c\<newline><|editable_region_end|>'')
         \<and> model_target_text (out ! 0) = Some (lit ''a\<newline>b\<newline>c'')"
    by code_simp
  then have "\<exists>out. add_editable_region_markers cpython removed_file 1 5 10 = Inr out
         \<and> model_input_text (out ! 0)
             = Some (lit ''<|editable_region_start|>\<newline>a\<newline>b\<newline>c\<newline><|editable_region_end|>'')
         \<and> model_target_text (out ! 0) = Some (lit ''a\<newline>b\<newline>c'')"
    by (cases "add_editable_region_markers cpython removed_file 1 5 10") simp_all
  ultimately show ?thesis by (intro conjI)
qed

lemma parse_patch_hunks_raises_iff:
  "(parse_patch_hunks py pt = Inl ValueError)
   = (py_truthy pt \<and> list_ex (line_raises py) (split_nl (the pt)))"
proof (cases pt)
  case None
  then show ?thesis by (simp add: parse_patch_hunks_def py_truthy_def)
next
  case (Some p)
  show ?thesis
  proof (cases "p = []")
    case True
    then show ?thesis using Some by (simp add: parse_patch_hunks_def py_truthy_def)
  next
    case False
    then show ?thesis using Some by (simp add: parse_patch_hunks_Some py_truthy_def)
  qed
qed

text \<open>The chunks of a chunkable record, in region order.\<close>

lemma markers_chunkable_ids:
  assumes "py_truthy (patch r)" "py_truthy (before_content r)"
    and h: "parse_patch_hunks py (patch r) = Inr hunks" and ne: "hunks \<noteq> []"
  shows "\<exists>out. add_editable_region_markers py r cb ca g = Inr out
    \<and> length out = length (merge_close_hunks hunks g) \<and> 1 \<le> length out
    \<and> (\<forall>i < length out.
          chunk_id (out ! i) = Some (int i)
          \<and> total_chunks_in_file (out ! i) = Some (int (length out))
          \<and> editable_region_start (out ! i)
              = Some (max 1 (fst (merge_close_hunks hunks g ! i) - cb))
          \<and> editable_region_end (out ! i)
              = Some (min (int (length (split_nl (the (before_content r)))))
                        (snd (merge_close_hunks hunks g ! i) + ca)))"
proof -
  from assms(1) obtain p where p: "patch r = Some p" "p \<noteq> []"
    by (auto simp: py_truthy_def split: option.splits)
  from assms(2) obtain b where b: "before_content r = Some b" "b \<noteq> []"
    by (auto simp: py_truthy_def split: option.splits)
  have hp: "parse_patch_hunks py (Some p) = Inr hunks" using h p by simp
  let ?m = "merge_close_hunks hunks g"
  let ?out = "chunk_loop [] r cb ca (split_nl b) (lines_after r b) (length ?m) 0 ?m"
  have c: "add_editable_region_markers py r cb ca g = Inr ?out"
    by (rule markers_chunkable [OF p b hp ne])
  have l: "length ?out = length ?m" by (simp add: chunk_loop_length)
  have "?m \<noteq> []" using ne by (rule merge_close_hunks_not_Nil)
  then have l1: "1 \<le> length ?out" using l by (cases ?m) simp_all
  have f: "chunk_id (?out ! i) = Some (int i)
          \<and> total_chunks_in_file (?out ! i) = Some (int (length ?out))
          \<and> editable_region_start (?out ! i) = Some (max 1 (fst (?m ! i) - cb))
          \<and> editable_region_end (?out ! i)
              = Some (min (int (length (split_nl (the (before_content r))))) (snd (?m ! i) + ca))"
    if "i < length ?out" for i
  proof -
    have i: "i < length ?m" using that l by simp
    have "?out ! i = make_chunk r cb ca (split_nl b) (lines_after r b) (length ?m) (int i) (?m ! i)"
      using chunk_loop_nth [OF i, of "[]" r cb ca _ _ _ 0] by simp
    then show ?thesis using l b by (simp add: make_chunk_fields)
  qed
  show ?thesis
    by (rule exI [of _ ?out]) (use c l l1 f in blast)
qed

text \<open>
  C5, as the code has it. A record whose patch is empty or absent, whose before-content
  is empty or absent, or whose patch parses to zero hunks gives exactly one chunk, with
  \<open>chunk_id = 0\<close>, \<open>total_chunks_in_file = 1\<close> and both texts absent. A record with a
  non-empty patch that parses to at least one hunk, and non-empty before-content
  (whatever its after-content), gives exactly one chunk per merged region, at least one:
  chunk \<open>i\<close> is the chunk of region \<open>i\<close>, with \<open>chunk_id = i\<close>, the bounds of that region
  and \<open>total_chunks_in_file\<close> the number of regions. The function raises, and returns no
  chunk, in the one case that is left: the patch and the before-content are not empty
  and the parser raises on the patch, which it does when a line of the patch makes it
  raise (\<open>line_raises\<close>: a number of a hunk header is too long for \<^verbatim>\<open>int\<close>).
\<close>

theorem chunk_counts:
  "(\<not> py_truthy (patch r) \<or> \<not> py_truthy (before_content r)
      \<or> parse_patch_hunks py (patch r) = Inr []
      \<longrightarrow> add_editable_region_markers py r cb ca g = Inr [not_chunkable r]
          \<and> chunk_id (not_chunkable r) = Some 0
          \<and> total_chunks_in_file (not_chunkable r) = Some 1
          \<and> model_input_text (not_chunkable r) = None
          \<and> model_target_text (not_chunkable r) = None)
   \<and> (py_truthy (patch r) \<and> py_truthy (before_content r)
      \<and> parse_patch_hunks py (patch r) = Inr hunks \<and> hunks \<noteq> []
      \<longrightarrow> (\<exists>out. add_editable_region_markers py r cb ca g = Inr out
            \<and> length out = length (merge_close_hunks hunks g) \<and> 1 \<le> length out
            \<and> (\<forall>i < length out.
                  chunk_id (out ! i) = Some (int i)
                  \<and> total_chunks_in_file (out ! i) = Some (int (length out))
                  \<and> editable_region_start (out ! i)
                      = Some (max 1 (fst (merge_close_hunks hunks g ! i) - cb))
                  \<and> editable_region_end (out ! i)
                      = Some (min (int (length (split_nl (the (before_content r)))))
                                (snd (merge_close_hunks hunks g ! i) + ca)))))
   \<and> (add_editable_region_markers py r cb ca g = Inl ValueError)
       = (py_truthy (patch r) \<and> py_truthy (before_content r)
          \<and> parse_patch_hunks py (patch r) = Inl ValueError)
   \<and> (parse_patch_hunks py (patch r) = Inl ValueError)
       = (py_truthy (patch r) \<and> list_ex (line_raises py) (split_nl (the (patch r))))"
proof (intro conjI impI)
  assume n: "\<not> py_truthy (patch r) \<or> \<not> py_truthy (before_content r)
             \<or> parse_patch_hunks py (patch r) = Inr []"
  show "add_editable_region_markers py r cb ca g = Inr [not_chunkable r]"
    using n by (rule markers_not_chunkable)
  show "chunk_id (not_chunkable r) = Some 0" "total_chunks_in_file (not_chunkable r) = Some 1"
    "model_input_text (not_chunkable r) = None" "model_target_text (not_chunkable r) = None"
    by (simp_all add: not_chunkable_fields)
next
  assume c: "py_truthy (patch r) \<and> py_truthy (before_content r)
             \<and> parse_patch_hunks py (patch r) = Inr hunks \<and> hunks \<noteq> []"
  then have 1: "py_truthy (patch r)" and 2: "py_truthy (before_content r)"
    and 3: "parse_patch_hunks py (patch r) = Inr hunks" and 4: "hunks \<noteq> []" by simp_all
  show "\<exists>out. add_editable_region_markers py r cb ca g = Inr out
            \<and> length out = length (merge_close_hunks hunks g) \<and> 1 \<le> length out
            \<and> (\<forall>i < length out.
                  chunk_id (out ! i) = Some (int i)
                  \<and> total_chunks_in_file (out ! i) = Some (int (length out))
                  \<and> editable_region_start (out ! i)
                      = Some (max 1 (fst (merge_close_hunks hunks g ! i) - cb))
                  \<and> editable_region_end (out ! i)
                      = Some (min (int (length (split_nl (the (before_content r)))))
                                (snd (merge_close_hunks hunks g ! i) + ca)))"
    by (rule markers_chunkable_ids [OF 1 2 3 4])
next
  show "(add_editable_region_markers py r cb ca g = Inl ValueError)
       = (py_truthy (patch r) \<and> py_truthy (before_content r)
          \<and> parse_patch_hunks py (patch r) = Inl ValueError)"
    by (rule markers_raises)
next
  show "(parse_patch_hunks py (patch r) = Inl ValueError)
       = (py_truthy (patch r) \<and> list_ex (line_raises py) (split_nl (the (patch r))))"
    by (rule parse_patch_hunks_raises_iff)
qed

theorem chunk_counts_witness:
  "parse_patch_hunks cpython (patch binary_file) = Inr []
   \<and> add_editable_region_markers cpython binary_file 1 5 10 = Inr [not_chunkable binary_file]
   \<and> py_truthy (patch two_hunk_file) \<and> py_truthy (before_content two_hunk_file)
   \<and> parse_patch_hunks cpython (patch two_hunk_file) = Inr [(1, 2), (20, 21)]
   \<and> merge_close_hunks [(1, 2), (20, 21)] 10 = [(1, 2), (20, 21)]
   \<and> (\<exists>out. add_editable_region_markers cpython two_hunk_file 1 5 10 = Inr out
         \<and> length out = 2
         \<and> chunk_id (out ! 1) = Some 1
         \<and> total_chunks_in_file (out ! 1) = Some 2
         \<and> editable_region_start (out ! 1) = Some 19
         \<and> editable_region_end (out ! 1) = Some 20)
   \<and> py_truthy (patch long_header_file) \<and> py_truthy (before_content long_header_file)
   \<and> parse_patch_hunks cpython (patch long_header_file) = Inl ValueError
   \<and> list_ex (line_raises cpython) (split_nl (the (patch long_header_file)))
   \<and> add_editable_region_markers cpython long_header_file 1 5 10 = Inl ValueError"
proof -
  have b: "parse_patch_hunks cpython (patch binary_file) = Inr []" by code_simp
  have nb: "add_editable_region_markers cpython binary_file 1 5 10 = Inr [not_chunkable binary_file]"
    using chunk_counts [where r = binary_file and py = cpython and cb = 1 and ca = 5 and g = 10] b by simp
  have t1: "py_truthy (patch two_hunk_file)" and t2: "py_truthy (before_content two_hunk_file)"
    by (simp_all add: two_hunk_file_def py_truthy_def lit_def)
  have h: "parse_patch_hunks cpython (patch two_hunk_file) = Inr [(1, 2), (20, 21)]"
    by code_simp
  have m: "merge_close_hunks [(1, 2), (20, 21)] 10 = [(1, 2), (20, 21)]"
    by (simp add: merge_close_hunks_def)
  have l: "length (split_nl (the (before_content two_hunk_file))) = 20" by code_simp
  have "\<exists>out. add_editable_region_markers cpython two_hunk_file 1 5 10 = Inr out
            \<and> length out = length (merge_close_hunks [(1, 2), (20, 21)] 10) \<and> 1 \<le> length out
            \<and> (\<forall>i < length out.
                  chunk_id (out ! i) = Some (int i)
                  \<and> total_chunks_in_file (out ! i) = Some (int (length out))
                  \<and> editable_region_start (out ! i)
                      = Some (max 1 (fst (merge_close_hunks [(1, 2), (20, 21)] 10 ! i) - 1))
                  \<and> editable_region_end (out ! i)
                      = Some (min (int (length (split_nl (the (before_content two_hunk_file)))))
                                (snd (merge_close_hunks [(1, 2), (20, 21)] 10 ! i) + 5)))"
    using chunk_counts [where r = two_hunk_file and py = cpython and hunks = "[(1, 2), (20, 21)]"
        and cb = 1 and ca = 5 and g = 10] t1 t2 h by simp
  then obtain out where o: "add_editable_region_markers cpython two_hunk_file 1 5 10 = Inr out"
    and len: "length out = 2"
    and f: "\<forall>i < length out.
                  chunk_id (out ! i) = Some (int i)
                  \<and> total_chunks_in_file (out ! i) = Some (int (length out))
                  \<and> editable_region_start (out ! i)
                      = Some (max 1 (fst (([(1, 2), (20, 21)] :: hunk list) ! i) - 1))
                  \<and> editable_region_end (out ! i)
                      = Some (min 20 (snd (([(1, 2), (20, 21)] :: hunk list) ! i) + 5))"
    unfolding m l by auto
  have "(1::nat) < length out" using len by simp
  with f have "chunk_id (out ! 1) = Some (int 1)
                  \<and> total_chunks_in_file (out ! 1) = Some (int (length out))
                  \<and> editable_region_start (out ! 1)
                      = Some (max 1 (fst (([(1, 2), (20, 21)] :: hunk list) ! 1) - 1))
                  \<and> editable_region_end (out ! 1)
                      = Some (min 20 (snd (([(1, 2), (20, 21)] :: hunk list) ! 1) + 5))"
    by blast
  then have two: "\<exists>out. add_editable_region_markers cpython two_hunk_file 1 5 10 = Inr out
         \<and> length out = 2
         \<and> chunk_id (out ! 1) = Some 1
         \<and> total_chunks_in_file (out ! 1) = Some 2
         \<and> editable_region_start (out ! 1) = Some 19
         \<and> editable_region_end (out ! 1) = Some 20"
    using o len by simp
  have l1: "py_truthy (patch long_header_file)"
    and l2: "py_truthy (before_content long_header_file)"
    by (simp_all add: long_header_file_def py_truthy_def lit_def)
  have lp: "parse_patch_hunks cpython (patch long_header_file) = Inl ValueError"
    using parse_patch_hunks_raises [OF too_long_4301] by (simp add: long_header_file_def)
  note c = chunk_counts [where r = long_header_file and py = cpython and cb = 1 and ca = 5
      and g = 10]
  have lr: "add_editable_region_markers cpython long_header_file 1 5 10 = Inl ValueError"
    using c l1 l2 lp by simp
  have ll: "list_ex (line_raises cpython) (split_nl (the (patch long_header_file)))"
    using c lp by simp
  show ?thesis using b nb t1 t2 h m two l1 l2 lp ll lr by (intro conjI)
qed

text \<open>
  C8 as the spec states it fails. Two lines inserted at the top of a one-line file give
  the hunk \<open>(0, 0)\<close>; with \<open>context_after = 0\<close> the region ends at line 0, no line has
  that number, and the input text has no end marker.
\<close>

theorem input_text_counterexample:
  "(\<exists>out. add_editable_region_markers cpython top_insert_file 1 0 10 = Inr out
      \<and> editable_region_end (out ! 0) = Some 0
      \<and> model_input_text (out ! 0) = Some (lit ''<|editable_region_start|>\<newline>x''))
   \<and> marker_end \<notin> set (split_nl (lit ''<|editable_region_start|>\<newline>x''))"
proof -
  have "case add_editable_region_markers cpython top_insert_file 1 0 10 of
      Inl e \<Rightarrow> False
    | Inr out \<Rightarrow> editable_region_end (out ! 0) = Some 0
      \<and> model_input_text (out ! 0) = Some (lit ''<|editable_region_start|>\<newline>x'')"
    by code_simp
  then have "\<exists>out. add_editable_region_markers cpython top_insert_file 1 0 10 = Inr out
      \<and> editable_region_end (out ! 0) = Some 0
      \<and> model_input_text (out ! 0) = Some (lit ''<|editable_region_start|>\<newline>x'')"
    by (cases "add_editable_region_markers cpython top_insert_file 1 0 10") simp_all
  moreover have "marker_end \<notin> set (split_nl (lit ''<|editable_region_start|>\<newline>x''))"
    by code_simp
  ultimately show ?thesis by (intro conjI)
qed

text \<open>
  C8, as the code has it. For every chunk produced from a record with a non-empty patch
  and non-empty before-content of \<open>L\<close> lines, and non-negative contexts, the input text
  is the before-lines joined with newlines, with the start marker inserted as a line
  just before line \<open>region_start\<close> when \<open>region_start \<le> L\<close>, and the end marker inserted
  as a line just after line \<open>region_end\<close> when \<open>region_end \<ge> 1\<close>, each once; a marker
  whose line number is outside \<open>1..L\<close> is not emitted.
\<close>

theorem input_text_markers:
  assumes "patch r = Some p" "p \<noteq> []" "before_content r = Some b" "b \<noteq> []"
    and h: "parse_patch_hunks py (Some p) = Inr hunks"
    and i: "i < length (merge_close_hunks hunks g)" and cb: "0 \<le> cb" and ca: "0 \<le> ca"
  shows "\<exists>out. add_editable_region_markers py r cb ca g = Inr out
    \<and> model_input_text (out ! i)
    = Some (join_nl
       (if max 1 (fst (merge_close_hunks hunks g ! i) - cb) \<le> int (length (split_nl b))
           \<and> 1 \<le> min (int (length (split_nl b))) (snd (merge_close_hunks hunks g ! i) + ca)
        then take (nat (max 1 (fst (merge_close_hunks hunks g ! i) - cb) - 1)) (split_nl b)
             @ [marker_start]
             @ take (nat (min (int (length (split_nl b))) (snd (merge_close_hunks hunks g ! i) + ca)
                          - max 1 (fst (merge_close_hunks hunks g ! i) - cb) + 1))
                 (drop (nat (max 1 (fst (merge_close_hunks hunks g ! i) - cb) - 1)) (split_nl b))
             @ [marker_end]
             @ drop (nat (min (int (length (split_nl b))) (snd (merge_close_hunks hunks g ! i) + ca)))
                 (split_nl b)
        else if max 1 (fst (merge_close_hunks hunks g ! i) - cb) \<le> int (length (split_nl b))
        then take (nat (max 1 (fst (merge_close_hunks hunks g ! i) - cb) - 1)) (split_nl b)
             @ [marker_start]
             @ drop (nat (max 1 (fst (merge_close_hunks hunks g ! i) - cb) - 1)) (split_nl b)
        else if 1 \<le> min (int (length (split_nl b))) (snd (merge_close_hunks hunks g ! i) + ca)
        then take (nat (min (int (length (split_nl b))) (snd (merge_close_hunks hunks g ! i) + ca)))
               (split_nl b)
             @ [marker_end]
             @ drop (nat (min (int (length (split_nl b))) (snd (merge_close_hunks hunks g ! i) + ca)))
                 (split_nl b)
        else split_nl b))"
proof -
  let ?m = "merge_close_hunks hunks g ! i" and ?bl = "split_nl b"
  let ?L = "int (length ?bl)"
  let ?rs = "max 1 (fst ?m - cb)" and ?re = "min ?L (snd ?m + ca)"
  have "?m \<in> set (merge_close_hunks hunks g)" using i by simp
  from merged_parsed_wf [OF h this] have wf: "fst ?m \<le> snd ?m" by simp
  from markers_chunk_at [OF assms(1-4) h i, of cb ca] obtain out where
    o: "add_editable_region_markers py r cb ca g = Inr out"
    and c: "out ! i = make_chunk r cb ca ?bl (lines_after r b)
                  (length (merge_close_hunks hunks g)) (int i) ?m"
    by blast
  have t: "model_input_text (out ! i) = Some (join_nl (mark_loop [] ?rs ?re 1 ?bl))"
    unfolding c by (simp only: make_chunk_fields)
  have rs1: "1 \<le> ?rs" and reL: "?re \<le> ?L" by simp_all
  have "model_input_text (out ! i)
    = Some (join_nl
       (if ?rs \<le> ?L \<and> 1 \<le> ?re
        then take (nat (?rs - 1)) ?bl @ [marker_start]
             @ take (nat (?re - ?rs + 1)) (drop (nat (?rs - 1)) ?bl)
             @ [marker_end] @ drop (nat ?re) ?bl
        else if ?rs \<le> ?L
        then take (nat (?rs - 1)) ?bl @ [marker_start] @ drop (nat (?rs - 1)) ?bl
        else if 1 \<le> ?re
        then take (nat ?re) ?bl @ [marker_end] @ drop (nat ?re) ?bl
        else ?bl))"
  proof -
    consider (both) "?rs \<le> ?L" "1 \<le> ?re" | (only_start) "?rs \<le> ?L" "\<not> 1 \<le> ?re"
      | (only_end) "\<not> ?rs \<le> ?L" "1 \<le> ?re" | (none) "\<not> ?rs \<le> ?L" "\<not> 1 \<le> ?re"
      by blast
    then show ?thesis
    proof cases
      case both
      have le: "?rs \<le> ?re" using both wf cb ca by linarith
      have e: "?re < 1 + ?L" using reL by linarith
      have "mark_loop [] ?rs ?re 1 ?bl
          = [] @ take (nat (?rs - 1)) ?bl @ [marker_start]
              @ take (nat (?re - ?rs + 1)) (drop (nat (?rs - 1)) ?bl) @ [marker_end]
              @ drop (nat (?re - 1 + 1)) ?bl"
        using rs1 le e by (rule mark_loop_both)
      then have "mark_loop [] ?rs ?re 1 ?bl
          = take (nat (?rs - 1)) ?bl @ [marker_start]
              @ take (nat (?re - ?rs + 1)) (drop (nat (?rs - 1)) ?bl) @ [marker_end]
              @ drop (nat ?re) ?bl"
        by simp
      then show ?thesis unfolding t using both by (simp only: if_True simp_thms)
    next
      case only_start
      have a: "?rs < 1 + ?L" using only_start(1) by linarith
      have b: "?re < 1 \<or> 1 + ?L \<le> ?re" using only_start(2) by linarith
      have "mark_loop [] ?rs ?re 1 ?bl
          = [] @ take (nat (?rs - 1)) ?bl @ [marker_start] @ drop (nat (?rs - 1)) ?bl"
        using rs1 a b by (rule mark_loop_start)
      then have "mark_loop [] ?rs ?re 1 ?bl
          = take (nat (?rs - 1)) ?bl @ [marker_start] @ drop (nat (?rs - 1)) ?bl"
        by simp
      then show ?thesis unfolding t using only_start by (simp only: if_True if_False simp_thms)
    next
      case only_end
      have a: "?rs < 1 \<or> 1 + ?L \<le> ?rs" using only_end(1) by linarith
      have e: "?re < 1 + ?L" using reL by linarith
      have "mark_loop [] ?rs ?re 1 ?bl
          = [] @ take (nat (?re - 1 + 1)) ?bl @ [marker_end] @ drop (nat (?re - 1 + 1)) ?bl"
        using a only_end(2) e by (rule mark_loop_end)
      then have "mark_loop [] ?rs ?re 1 ?bl
          = take (nat ?re) ?bl @ [marker_end] @ drop (nat ?re) ?bl"
        by simp
      then show ?thesis unfolding t using only_end by (simp only: if_True if_False simp_thms)
    next
      case none
      have a: "?rs < 1 \<or> 1 + ?L \<le> ?rs" using none(1) by linarith
      have b: "?re < 1 \<or> 1 + ?L \<le> ?re" using none(2) by linarith
      have "mark_loop [] ?rs ?re 1 ?bl = [] @ ?bl"
        using a b by (rule mark_loop_none)
      then have "mark_loop [] ?rs ?re 1 ?bl = ?bl" by simp
      then show ?thesis unfolding t using none by (simp only: if_False simp_thms)
    qed
  qed
  with o show ?thesis by blast
qed

theorem input_text_markers_witness:
  "(0::int) \<le> 1 \<and> (0::int) \<le> 5
   \<and> (\<exists>out. add_editable_region_markers cpython shrunk_file 1 5 10 = Inr out
         \<and> editable_region_start (out ! 0) = Some 9
         \<and> editable_region_end (out ! 0) = Some 17
         \<and> model_input_text (out ! 0)
             = Some (lit ''a\<newline>b\<newline>c\<newline>d\<newline>e\<newline>f\<newline>g\<newline>h\<newline><|editable_region_start|>\<newline>i\<newline>j\<newline>k\<newline>l\<newline>m\<newline>n\<newline>o\<newline>p\<newline>q\<newline><|editable_region_end|>\<newline>r\<newline>s\<newline>t''))"
proof -
  let ?p = "lit ''@@ -10,2 +10,0 @@\<newline>-j\<newline>-k''"
  let ?b = "lit ''a\<newline>b\<newline>c\<newline>d\<newline>e\<newline>f\<newline>g\<newline>h\<newline>i\<newline>j\<newline>k\<newline>l\<newline>m\<newline>n\<newline>o\<newline>p\<newline>q\<newline>r\<newline>s\<newline>t''"
  let ?m = "[(10, 12)] :: hunk list"
  have p: "patch shrunk_file = Some ?p" and b: "before_content shrunk_file = Some ?b"
    by (simp_all add: shrunk_file_def)
  have h: "parse_patch_hunks cpython (Some ?p) = Inr [(10, 12)]" by code_simp
  have m: "merge_close_hunks [(10, 12)] 10 = ?m" by (simp add: merge_close_hunks_def)
  have i: "0 < length (merge_close_hunks [(10, 12)] 10)" by (simp only: m) simp
  have c1: "(0::int) \<le> 1" and c5: "(0::int) \<le> 5" by simp_all
  have pn: "?p \<noteq> []" and bn: "?b \<noteq> []" by (simp_all add: lit_def)
  note t = input_text_markers [OF p pn b bn h i c1 c5, unfolded m]
  have v: "join_nl
       (if max 1 (fst (?m ! 0) - 1) \<le> int (length (split_nl ?b))
           \<and> 1 \<le> min (int (length (split_nl ?b))) (snd (?m ! 0) + 5)
        then take (nat (max 1 (fst (?m ! 0) - 1) - 1)) (split_nl ?b)
             @ [marker_start]
             @ take (nat (min (int (length (split_nl ?b))) (snd (?m ! 0) + 5)
                          - max 1 (fst (?m ! 0) - 1) + 1))
                 (drop (nat (max 1 (fst (?m ! 0) - 1) - 1)) (split_nl ?b))
             @ [marker_end]
             @ drop (nat (min (int (length (split_nl ?b))) (snd (?m ! 0) + 5)))
                 (split_nl ?b)
        else if max 1 (fst (?m ! 0) - 1) \<le> int (length (split_nl ?b))
        then take (nat (max 1 (fst (?m ! 0) - 1) - 1)) (split_nl ?b)
             @ [marker_start]
             @ drop (nat (max 1 (fst (?m ! 0) - 1) - 1)) (split_nl ?b)
        else if 1 \<le> min (int (length (split_nl ?b))) (snd (?m ! 0) + 5)
        then take (nat (min (int (length (split_nl ?b))) (snd (?m ! 0) + 5)))
               (split_nl ?b)
             @ [marker_end]
             @ drop (nat (min (int (length (split_nl ?b))) (snd (?m ! 0) + 5)))
                 (split_nl ?b)
        else split_nl ?b)
     = lit ''a\<newline>b\<newline>c\<newline>d\<newline>e\<newline>f\<newline>g\<newline>h\<newline><|editable_region_start|>\<newline>i\<newline>j\<newline>k\<newline>l\<newline>m\<newline>n\<newline>o\<newline>p\<newline>q\<newline><|editable_region_end|>\<newline>r\<newline>s\<newline>t''"
    by code_simp
  from t obtain out where o: "add_editable_region_markers cpython shrunk_file 1 5 10 = Inr out"
    and inp: "model_input_text (out ! 0)
       = Some (lit ''a\<newline>b\<newline>c\<newline>d\<newline>e\<newline>f\<newline>g\<newline>h\<newline><|editable_region_start|>\<newline>i\<newline>j\<newline>k\<newline>l\<newline>m\<newline>n\<newline>o\<newline>p\<newline>q\<newline><|editable_region_end|>\<newline>r\<newline>s\<newline>t'')"
    unfolding v by blast
  have "case add_editable_region_markers cpython shrunk_file 1 5 10 of
      Inl e \<Rightarrow> False
    | Inr out \<Rightarrow> editable_region_start (out ! 0) = Some 9
        \<and> editable_region_end (out ! 0) = Some 17"
    by code_simp
  then have "editable_region_start (out ! 0) = Some 9 \<and> editable_region_end (out ! 0) = Some 17"
    by (simp add: o)
  with o inp have "\<exists>out. add_editable_region_markers cpython shrunk_file 1 5 10 = Inr out
         \<and> editable_region_start (out ! 0) = Some 9
         \<and> editable_region_end (out ! 0) = Some 17
         \<and> model_input_text (out ! 0)
             = Some (lit ''a\<newline>b\<newline>c\<newline>d\<newline>e\<newline>f\<newline>g\<newline>h\<newline><|editable_region_start|>\<newline>i\<newline>j\<newline>k\<newline>l\<newline>m\<newline>n\<newline>o\<newline>p\<newline>q\<newline><|editable_region_end|>\<newline>r\<newline>s\<newline>t'')"
    by blast
  with c1 c5 show ?thesis by (intro conjI)
qed

end
